theory Spec2Isabelle
  imports Complex_Main "HOL-Library.Word"
begin

unbundle bit_operations_syntax

section \<open>Machine model\<close>

text \<open>
  The benchmark is C code for a 64-bit RISC-V target.  \<^verbatim>\<open>size_t\<close> is modelled as a
  64-bit word, so that \<open>+\<close>, \<open>-\<close> and \<open>*\<close> wrap around exactly as unsigned C arithmetic does,
  and \<^verbatim>\<open>unsigned int\<close> as a 32-bit word.  A \<^verbatim>\<open>double\<close> is modelled as a real number:
  all arithmetic on matrix elements is exact, rounding is not part of the model.

  A pointer that may be \<^verbatim>\<open>NULL\<close> is an \<open>option\<close>.  A buffer of doubles is a list; reading
  or writing it at an offset that is not below its length is undefined behaviour in C and
  is the value \<open>Inl OutOfBounds\<close> here.  The input matrices are separate objects from the
  output matrix (no aliasing), as the harness in \<^verbatim>\<open>main.c\<close> allocates them.
\<close>

type_synonym size_t = "64 word"
type_synonym u32 = "32 word"

datatype fault = NullDeref | OutOfBounds | DivByZero

text \<open>\<^verbatim>\<open>typedef struct { double *data; size_t rows; size_t cols; } Matrix;\<close>\<close>

record Matrix =
  data :: "real list option"
  rows :: size_t
  cols :: size_t

text \<open>Sequencing of steps that may fault, and of steps that may also fail to return.\<close>

definition bindR :: "fault + 'a \<Rightarrow> ('a \<Rightarrow> fault + 'b) \<Rightarrow> fault + 'b" where
  "bindR r f = (case r of Inl e \<Rightarrow> Inl e | Inr x \<Rightarrow> f x)"

definition bindO ::
  "(fault + 'a) option \<Rightarrow> ('a \<Rightarrow> (fault + 'b) option) \<Rightarrow> (fault + 'b) option" where
  "bindO r f = (case r of None \<Rightarrow> None | Some (Inl e) \<Rightarrow> Some (Inl e) | Some (Inr x) \<Rightarrow> f x)"

text \<open>
  \<^verbatim>\<open>#define MATRIX_GET(mat, i, j) ((mat)->data[(i) * (mat)->cols + (j)])\<close> and
  \<^verbatim>\<open>#define MATRIX_SET(mat, i, j, val) ((mat)->data[(i) * (mat)->cols + (j)] = (val))\<close>:
  the offset is computed in \<^verbatim>\<open>size_t\<close> arithmetic.
\<close>

definition MATRIX_GET :: "Matrix \<Rightarrow> size_t \<Rightarrow> size_t \<Rightarrow> fault + real" where
  "MATRIX_GET mat i j =
     (case data mat of
        None \<Rightarrow> Inl NullDeref
      | Some buf \<Rightarrow>
          (let idx = unat (i * cols mat + j)
           in if idx < length buf then Inr (buf ! idx) else Inl OutOfBounds))"

definition MATRIX_SET :: "Matrix \<Rightarrow> size_t \<Rightarrow> size_t \<Rightarrow> real \<Rightarrow> fault + Matrix" where
  "MATRIX_SET mat i j val =
     (case data mat of
        None \<Rightarrow> Inl NullDeref
      | Some buf \<Rightarrow>
          (let idx = unat (i * cols mat + j)
           in if idx < length buf then Inr (mat\<lparr>data := Some (buf[idx := val])\<rparr>)
              else Inl OutOfBounds))"

section \<open>Loops\<close>

text \<open>
  \<^verbatim>\<open>for (size_t i = lo; i < n; i++) body\<close>.  The counter cannot wrap, because it is
  below \<open>n\<close> whenever it is incremented, so this loop always ends.
\<close>

function for_upto ::
  "size_t \<Rightarrow> size_t \<Rightarrow> (size_t \<Rightarrow> 's \<Rightarrow> fault + 's) \<Rightarrow> 's \<Rightarrow> fault + 's" where
  "for_upto i n body s =
     (if i < n
      then (case body i s of Inl e \<Rightarrow> Inl e | Inr s' \<Rightarrow> for_upto (i + 1) n body s')
      else Inr s)"
  by pat_completeness auto
termination
proof (relation "measure (\<lambda>(i, n, body, s). unat n - unat i)")
  show "wf (measure (\<lambda>(i :: size_t, n :: size_t, body :: size_t \<Rightarrow> 's \<Rightarrow> fault + 's, s :: 's).
          unat n - unat i))"
    by simp
next
  fix i n :: size_t and body :: "size_t \<Rightarrow> 's \<Rightarrow> fault + 's" and s x2 :: 's
  assume "i < n"
  then have lt: "unat i < unat n"
    by (simp add: word_less_nat_alt)
  have "unat n < 2 ^ 64"
    using unsigned_less [of n] by simp
  with lt have "unat (i + 1) = unat i + 1"
    by (simp add: unat_word_ariths)
  with lt show "((i + 1, n, body, x2), (i, n, body, s)) \<in>
      measure (\<lambda>(i, n, body, s). unat n - unat i)"
    by simp
qed

text \<open>
  A loop whose stride or bound can wrap (or whose stride can be zero) need not end:
  not returning is the value \<open>None\<close>.
\<close>

partial_function (option) while_loop ::
  "('s \<Rightarrow> bool) \<Rightarrow> ('s \<Rightarrow> (fault + 's) option) \<Rightarrow> 's \<Rightarrow> (fault + 's) option" where
  "while_loop cond body s =
     (if cond s
      then (case body s of
              None \<Rightarrow> None
            | Some r \<Rightarrow> (case r of Inl e \<Rightarrow> Some (Inl e)
                         | Inr s' \<Rightarrow> while_loop cond body s'))
      else Some (Inr s))"

declare while_loop.simps [code]

text \<open>
  \<^verbatim>\<open>for (; cond(x); x = incr(x)) body\<close> starting at \<open>x0\<close>; the result carries the final
  value of the counter, which the source reuses after the unrolled and the chunked loop.
\<close>

definition for_from ::
  "size_t \<Rightarrow> (size_t \<Rightarrow> bool) \<Rightarrow> (size_t \<Rightarrow> size_t) \<Rightarrow>
   (size_t \<Rightarrow> 's \<Rightarrow> (fault + 's) option) \<Rightarrow> 's \<Rightarrow> (fault + size_t \<times> 's) option" where
  "for_from x0 cond incr body s0 =
     while_loop (\<lambda>(x, s). cond x)
       (\<lambda>(x, s). bindO (body x s) (\<lambda>s'. Some (Inr (incr x, s'))))
       (x0, s0)"

definition for_loop ::
  "size_t \<Rightarrow> (size_t \<Rightarrow> bool) \<Rightarrow> (size_t \<Rightarrow> size_t) \<Rightarrow>
   (size_t \<Rightarrow> 's \<Rightarrow> (fault + 's) option) \<Rightarrow> 's \<Rightarrow> (fault + 's) option" where
  "for_loop x0 cond incr body s0 =
     bindO (for_from x0 cond incr body s0) (\<lambda>(x, s). Some (Inr s))"

section \<open>utils.c\<close>

subsection \<open>Random number generation\<close>

text \<open>
  \<^verbatim>\<open>static unsigned int random_seed\<close> is process-wide state; it is passed in and returned.
\<close>

definition seed_random :: "u32 \<Rightarrow> u32 \<Rightarrow> u32" where
  "seed_random seed random_seed = seed"

definition random_double :: "real \<Rightarrow> real \<Rightarrow> u32 \<Rightarrow> real \<times> u32" where
  "random_double lo hi random_seed =
     (let random_seed' = random_seed * 1103515245 + 12345;
          r = real (unat (random_seed' AND 0x7FFFFFFF)) / 0x7FFFFFFF
      in (lo + r * (hi - lo), random_seed'))"

subsection \<open>Memory\<close>

text \<open>
  The C library is outside the repository and is a parameter: whether
  \<^verbatim>\<open>malloc(sizeof(Matrix))\<close> returns a block, and what \<^verbatim>\<open>posix_memalign\<close> returns for an
  alignment and a size in bytes (its return code, and the pointer it stores, whose block
  is seen as a buffer of uninitialised doubles).
\<close>

record libc =
  malloc_ok :: bool
  posix_memalign :: "size_t \<Rightarrow> size_t \<Rightarrow> int \<times> real list option"

definition aligned_malloc :: "libc \<Rightarrow> size_t \<Rightarrow> size_t \<Rightarrow> real list option" where
  "aligned_malloc env nbytes alignment =
     (case posix_memalign env alignment nbytes of
        (rc, ptr) \<Rightarrow> if rc \<noteq> 0 then None else ptr)"

section \<open>matrix\_naive.c\<close>

definition matrix_create :: "libc \<Rightarrow> size_t \<Rightarrow> size_t \<Rightarrow> Matrix option" where
  "matrix_create env nrows ncols =
     (if \<not> malloc_ok env then None
      else (case aligned_malloc env (nrows * ncols * 8) 32 of
              None \<Rightarrow> None
            | Some buf \<Rightarrow> Some \<lparr>data = Some buf, rows = nrows, cols = ncols\<rparr>))"

definition matrix_init_random ::
  "Matrix option \<Rightarrow> real \<Rightarrow> real \<Rightarrow> u32 \<Rightarrow> fault + (Matrix option \<times> u32)" where
  "matrix_init_random mat lo hi random_seed =
     (case mat of
        None \<Rightarrow> Inr (None, random_seed)
      | Some m \<Rightarrow>
          (case data m of
             None \<Rightarrow> Inr (mat, random_seed)
           | Some buf0 \<Rightarrow>
               bindR
                 (for_upto 0 (rows m * cols m) (\<lambda>i (buf, seed).
                    case random_double lo hi seed of
                      (v, seed') \<Rightarrow>
                        if unat i < length buf then Inr (buf[unat i := v], seed')
                        else Inl OutOfBounds)
                  (buf0, random_seed))
                 (\<lambda>(buf, seed). Inr (Some (m\<lparr>data := Some buf\<rparr>), seed))))"

text \<open>
  \<^verbatim>\<open>memset(mat->data, 0, mat->rows * mat->cols * sizeof(double))\<close>: the byte count is a
  \<^verbatim>\<open>size_t\<close> product, always a multiple of 8.
\<close>

definition matrix_init_zero :: "Matrix option \<Rightarrow> fault + Matrix option" where
  "matrix_init_zero mat =
     (case mat of
        None \<Rightarrow> Inr None
      | Some m \<Rightarrow>
          (case data m of
             None \<Rightarrow> Inr mat
           | Some buf \<Rightarrow>
               (let nbytes = unat (rows m * cols m * 8)
                in if nbytes \<le> 8 * length buf
                   then Inr (Some (m\<lparr>data :=
                          Some (replicate (nbytes div 8) 0 @ drop (nbytes div 8) buf)\<rparr>))
                   else Inl OutOfBounds)))"

text \<open>\<^verbatim>\<open>sum += MATRIX_GET(A, i, k) * MATRIX_GET(B, k, j);\<close>\<close>

definition accumulate ::
  "Matrix \<Rightarrow> Matrix \<Rightarrow> size_t \<Rightarrow> size_t \<Rightarrow> size_t \<Rightarrow> real \<Rightarrow> fault + real" where
  "accumulate a b i k j acc =
     bindR (MATRIX_GET a i k) (\<lambda>x.
     bindR (MATRIX_GET b k j) (\<lambda>y.
     Inr (acc + x * y)))"

text \<open>
  The naive kernel.  Next to the output matrix, the loops record the offset of every
  \<^verbatim>\<open>MATRIX_SET\<close> they perform, in program order; nothing reads this record, it only makes
  the stores of a run observable.
\<close>

definition matrix_mult_naive_steps ::
  "Matrix option \<Rightarrow> Matrix option \<Rightarrow> Matrix option \<Rightarrow> fault + (Matrix option \<times> nat list)" where
  "matrix_mult_naive_steps A B C =
     (case (A, B, C) of
        (Some a, Some b, Some c) \<Rightarrow>
          if data a = None \<or> data b = None \<or> data c = None then Inr (C, [])
          else if cols a \<noteq> rows b \<or> rows a \<noteq> rows c \<or> cols b \<noteq> cols c then Inr (C, [])
          else
            (let n = rows a; m = cols a; p = cols b in
             bindR
               (for_upto 0 n (\<lambda>i.
                  for_upto 0 p (\<lambda>j (c', stores).
                    bindR (for_upto 0 m (\<lambda>k sum. accumulate a b i k j sum) 0) (\<lambda>sum.
                    bindR (MATRIX_SET c' i j sum) (\<lambda>c''.
                    Inr (c'', stores @ [unat (i * cols c' + j)])))))
                  (c, []))
               (\<lambda>(c', stores). Inr (Some c', stores)))
      | _ \<Rightarrow> Inr (C, []))"

definition matrix_mult_naive ::
  "Matrix option \<Rightarrow> Matrix option \<Rightarrow> Matrix option \<Rightarrow> fault + Matrix option" where
  "matrix_mult_naive A B C = bindR (matrix_mult_naive_steps A B C) (\<lambda>(c', stores). Inr c')"

text \<open>The loop of \<^verbatim>\<open>matrix_verify\<close>, which returns from inside its body.\<close>

function matrix_verify_loop ::
  "real list \<Rightarrow> real list \<Rightarrow> real \<Rightarrow> size_t \<Rightarrow> size_t \<Rightarrow> fault + int" where
  "matrix_verify_loop da db tolerance i n =
     (if i < n
      then (if unat i < length da \<and> unat i < length db
            then (let diff = \<bar>da ! unat i - db ! unat i\<bar>
                  in if diff > tolerance then Inr 0
                     else matrix_verify_loop da db tolerance (i + 1) n)
            else Inl OutOfBounds)
      else Inr 1)"
  by pat_completeness auto
termination
proof (relation "measure (\<lambda>(da, db, tolerance, i, n). unat n - unat i)")
  show "wf (measure (\<lambda>(da :: real list, db :: real list, tolerance :: real,
          i :: size_t, n :: size_t). unat n - unat i))"
    by simp
next
  fix da db :: "real list" and tolerance x :: real and i n :: size_t
  assume "i < n"
  then have lt: "unat i < unat n"
    by (simp add: word_less_nat_alt)
  have "unat n < 2 ^ 64"
    using unsigned_less [of n] by simp
  with lt have "unat (i + 1) = unat i + 1"
    by (simp add: unat_word_ariths)
  with lt show "((da, db, tolerance, i + 1, n), (da, db, tolerance, i, n)) \<in>
      measure (\<lambda>(da, db, tolerance, i, n). unat n - unat i)"
    by simp
qed

definition matrix_verify :: "Matrix option \<Rightarrow> Matrix option \<Rightarrow> real \<Rightarrow> fault + int" where
  "matrix_verify A B tolerance =
     (case (A, B) of
        (Some a, Some b) \<Rightarrow>
          (case (data a, data b) of
             (Some da, Some db) \<Rightarrow>
               if rows a \<noteq> rows b \<or> cols a \<noteq> cols b then Inr 0
               else matrix_verify_loop da db tolerance 0 (rows a * cols a)
           | _ \<Rightarrow> Inr 0)
      | _ \<Rightarrow> Inr 0)"

section \<open>matrix\_tiled.c\<close>

definition matrix_mult_tiled ::
  "Matrix option \<Rightarrow> Matrix option \<Rightarrow> Matrix option \<Rightarrow> size_t \<Rightarrow>
   (fault + Matrix option) option" where
  "matrix_mult_tiled A B C tile_size =
     (case (A, B, C) of
        (Some a, Some b, Some c) \<Rightarrow>
          if data a = None \<or> data b = None \<or> data c = None then Some (Inr C)
          else if cols a \<noteq> rows b \<or> rows a \<noteq> rows c \<or> cols b \<noteq> cols c then Some (Inr C)
          else
            (let n = rows a; m = cols a; p = cols b in
             bindO (Some (matrix_init_zero C)) (\<lambda>C0.
             case C0 of
               None \<Rightarrow> Some (Inr None)
             | Some c0 \<Rightarrow>
                 bindO
                   (for_loop 0 (\<lambda>ii. ii < n) (\<lambda>ii. ii + tile_size) (\<lambda>ii.
                    for_loop 0 (\<lambda>jj. jj < p) (\<lambda>jj. jj + tile_size) (\<lambda>jj.
                    for_loop 0 (\<lambda>kk. kk < m) (\<lambda>kk. kk + tile_size) (\<lambda>kk.
                      let i_end = (if ii + tile_size < n then ii + tile_size else n);
                          j_end = (if jj + tile_size < p then jj + tile_size else p);
                          k_end = (if kk + tile_size < m then kk + tile_size else m)
                      in
                      for_loop ii (\<lambda>i. i < i_end) (\<lambda>i. i + 1) (\<lambda>i.
                      for_loop jj (\<lambda>j. j < j_end) (\<lambda>j. j + 1) (\<lambda>j c'.
                        bindO (Some (MATRIX_GET c' i j)) (\<lambda>sum0.
                        bindO (for_from kk (\<lambda>k. k < k_end - 3) (\<lambda>k. k + 4) (\<lambda>k sum.
                                 Some (bindR (accumulate a b i k j sum) (\<lambda>sum.
                                       bindR (accumulate a b i (k + 1) j sum) (\<lambda>sum.
                                       bindR (accumulate a b i (k + 2) j sum) (\<lambda>sum.
                                       accumulate a b i (k + 3) j sum))))) sum0) (\<lambda>(k, sum1).
                        bindO (for_from k (\<lambda>k. k < k_end) (\<lambda>k. k + 1) (\<lambda>k sum.
                                 Some (accumulate a b i k j sum)) sum1) (\<lambda>(k', sum2).
                        Some (MATRIX_SET c' i j sum2))))))))) c0)
                   (\<lambda>c'. Some (Inr (Some c')))))
      | _ \<Rightarrow> Some (Inr C))"

definition calculate_optimal_tile_size :: "size_t \<Rightarrow> size_t \<Rightarrow> (fault + size_t) option" where
  "calculate_optimal_tile_size cache_size_bytes element_size =
     (let usable_cache = cache_size_bytes div 4 in
      if 3 * element_size = 0 then Some (Inl DivByZero)
      else
        (let elements_per_tile = usable_cache div (3 * element_size) in
         bindO (while_loop (\<lambda>tile_size. tile_size * tile_size \<le> elements_per_tile)
                  (\<lambda>tile_size. Some (Inr (tile_size + 1))) 1) (\<lambda>tile_size.
         let tile_size = tile_size - 1;
             tile_size = (if tile_size < 8 then 8 else tile_size);
             tile_size = (if tile_size > 256 then 256 else tile_size)
         in
         bindO (while_loop (\<lambda>power_of_2. power_of_2 \<le> tile_size)
                  (\<lambda>power_of_2. Some (Inr (push_bit 1 power_of_2))) 1) (\<lambda>power_of_2.
         Some (Inr (drop_bit 1 power_of_2))))))"

section \<open>matrix\_vector.c\<close>

definition VECTOR_LENGTH :: size_t where
  "VECTOR_LENGTH = 8"

definition matrix_mult_vector ::
  "Matrix option \<Rightarrow> Matrix option \<Rightarrow> Matrix option \<Rightarrow> (fault + Matrix option) option" where
  "matrix_mult_vector A B C =
     (case (A, B, C) of
        (Some a, Some b, Some c) \<Rightarrow>
          if data a = None \<or> data b = None \<or> data c = None then Some (Inr C)
          else if cols a \<noteq> rows b \<or> rows a \<noteq> rows c \<or> cols b \<noteq> cols c then Some (Inr C)
          else
            (let n = rows a; m = cols a; p = cols b in
             bindO (Some (matrix_init_zero C)) (\<lambda>C0.
             case C0 of
               None \<Rightarrow> Some (Inr None)
             | Some c0 \<Rightarrow>
                 bindO
                   (for_loop 0 (\<lambda>i. i < n) (\<lambda>i. i + 1) (\<lambda>i.
                    for_loop 0 (\<lambda>k. k < m) (\<lambda>k. k + 1) (\<lambda>k c'.
                      bindO (Some (MATRIX_GET a i k)) (\<lambda>a_ik.
                      bindO (for_from 0 (\<lambda>j. j \<le> p - VECTOR_LENGTH) (\<lambda>j. j + VECTOR_LENGTH) (\<lambda>j.
                               for_loop 0 (\<lambda>vj. vj < VECTOR_LENGTH) (\<lambda>vj. vj + 1) (\<lambda>vj c''.
                                 Some (bindR (MATRIX_GET c'' i (j + vj)) (\<lambda>cv.
                                       bindR (MATRIX_GET b k (j + vj)) (\<lambda>bv.
                                       MATRIX_SET c'' i (j + vj) (cv + a_ik * bv)))))) c') (\<lambda>(j, c'').
                      for_loop j (\<lambda>j. j < p) (\<lambda>j. j + 1) (\<lambda>j c3.
                        Some (bindR (MATRIX_GET c3 i j) (\<lambda>cv.
                              bindR (MATRIX_GET b k j) (\<lambda>bv.
                              MATRIX_SET c3 i j (cv + a_ik * bv))))) c'')))) c0)
                   (\<lambda>c'. Some (Inr (Some c')))))
      | _ \<Rightarrow> Some (Inr C))"

section \<open>Well-formed matrices, the product and loop progress\<close>

text \<open>
  The invariant of the data model: the buffer is present, holds exactly \<open>rows * cols\<close>
  doubles, and its size in bytes fits \<^verbatim>\<open>size_t\<close>.
\<close>

definition wf_matrix :: "Matrix \<Rightarrow> bool" where
  "wf_matrix m =
     (case data m of
        None \<Rightarrow> False
      | Some buf \<Rightarrow> length buf = unat (rows m) * unat (cols m) \<and> 8 * length buf < 2 ^ 64)"

text \<open>The dimension-compatibility invariant for \<open>C = A * B\<close>.\<close>

definition compatible :: "Matrix \<Rightarrow> Matrix \<Rightarrow> Matrix \<Rightarrow> bool" where
  "compatible a b c = (cols a = rows b \<and> rows c = rows a \<and> cols c = cols b)"

text \<open>The matrix with the given extents and row-major contents.\<close>

definition mk_matrix :: "nat \<Rightarrow> nat \<Rightarrow> real list \<Rightarrow> Matrix" where
  "mk_matrix r c xs = \<lparr>data = Some xs, rows = of_nat r, cols = of_nat c\<rparr>"

text \<open>The product entry \<open>(A * B)[i][j]\<close> read from the row-major buffers.\<close>

definition dot :: "real list \<Rightarrow> real list \<Rightarrow> nat \<Rightarrow> nat \<Rightarrow> nat \<Rightarrow> nat \<Rightarrow> real" where
  "dot da db m p i j = (\<Sum>k = 0..<m. da ! (i * m + k) * db ! (k * p + j))"

text \<open>The row-major buffer of the product of an \<open>n \<times> m\<close> and an \<open>m \<times> p\<close> matrix.\<close>

definition product_buf :: "real list \<Rightarrow> real list \<Rightarrow> nat \<Rightarrow> nat \<Rightarrow> nat \<Rightarrow> real list" where
  "product_buf da db n m p = map (\<lambda>idx. dot da db m p (idx div p) (idx mod p)) [0..<n * p]"

text \<open>
  The sum of the first \<open>k\<close> products of the entry at linear offset \<open>idx\<close> of \<open>A * B\<close>, and
  an output buffer in which the entry at every offset \<open>idx\<close> has accumulated its first
  \<open>K idx\<close> products.
\<close>

definition partial_dot :: "real list \<Rightarrow> real list \<Rightarrow> nat \<Rightarrow> nat \<Rightarrow> nat \<Rightarrow> nat \<Rightarrow> real" where
  "partial_dot da db m p k idx =
     (\<Sum>t = 0..<k. da ! ((idx div p) * m + t) * db ! (t * p + idx mod p))"

definition accumulated ::
  "real list \<Rightarrow> real list \<Rightarrow> nat \<Rightarrow> nat \<Rightarrow> nat \<Rightarrow> (nat \<Rightarrow> nat) \<Rightarrow> real list \<Rightarrow> bool" where
  "accumulated da db n m p K buf \<longleftrightarrow>
     length buf = n * p \<and> (\<forall>idx<n * p. buf ! idx = partial_dot da db m p (K idx) idx)"

text \<open>
  Progress of the vector-simulated kernel when it is about to process column \<open>j\<close> for
  row \<open>i\<close> of \<open>A\<close> and row \<open>k\<close> of \<open>B\<close>: the rows above \<open>i\<close> are complete, row \<open>i\<close> has
  \<open>k + 1\<close> products left of column \<open>j\<close> and \<open>k\<close> from there on, the rows below have none.
\<close>

definition vector_progress :: "nat \<Rightarrow> nat \<Rightarrow> nat \<Rightarrow> nat \<Rightarrow> nat \<Rightarrow> nat \<Rightarrow> nat" where
  "vector_progress m p i k j idx =
     (if idx < i * p then m
      else if idx < i * p + j then Suc k
      else if idx < Suc i * p then k
      else 0)"

text \<open>
  Progress of the tiled kernel inside the block of rows \<open>[ii, ie)\<close>, columns \<open>[jj, je)\<close>
  and products \<open>[kk, ke)\<close>, when it is about to process element \<open>(i, j)\<close>: rows above the
  block are complete, in the rows of the block the columns left of the block are complete
  and the columns right of it have no product, and inside the block the elements before
  \<open>(i, j)\<close> have \<open>ke\<close> products and the others \<open>kk\<close>.
\<close>

definition tiled_progress ::
  "nat \<Rightarrow> nat \<Rightarrow> nat \<Rightarrow> nat \<Rightarrow> nat \<Rightarrow> nat \<Rightarrow> nat \<Rightarrow> nat \<Rightarrow> nat \<Rightarrow> nat \<Rightarrow> nat \<Rightarrow> nat" where
  "tiled_progress m p ii ie jj je kk ke i j idx =
     (let r = idx div p; cl = idx mod p in
      if r < ii then m
      else if r < ie then
        (if cl < jj then m
         else if cl < je then (if r < i \<or> (r = i \<and> cl < j) then ke else kk)
         else 0)
      else 0)"

text \<open>
  The first \<open>k\<close> values that successive calls of \<^verbatim>\<open>random_double\<close> return from a given
  generator state, in the order of the calls, with the state they leave behind.
\<close>

fun lcg_stream :: "real \<Rightarrow> real \<Rightarrow> u32 \<Rightarrow> nat \<Rightarrow> real list \<times> u32" where
  "lcg_stream lo hi seed 0 = ([], seed)"
| "lcg_stream lo hi seed (Suc k) =
     (case lcg_stream lo hi seed k of
        (vs, s) \<Rightarrow> (case random_double lo hi s of (v, s') \<Rightarrow> (vs @ [v], s')))"

text \<open>
  A C library in the style of glibc: every request is granted, a request for zero bytes
  included (\<^verbatim>\<open>posix_memalign\<close> may then return a unique pointer), and a block of \<open>size\<close>
  bytes holds \<open>size div 8\<close> doubles.
\<close>

definition granting_libc :: libc where
  "granting_libc =
     \<lparr>malloc_ok = True,
      posix_memalign = (\<lambda>alignment nbytes. (0, Some (replicate (unat nbytes div 8) 0)))\<rparr>"

section \<open>Basic facts\<close>

lemma bindR_simps [simp]: "bindR (Inr x) f = f x" "bindR (Inl e) f = Inl e"
  by (simp_all add: bindR_def)

lemma bindO_simps [simp]:
  "bindO None f = None" "bindO (Some (Inl e)) f = Some (Inl e)" "bindO (Some (Inr x)) f = f x"
  by (simp_all add: bindO_def)

declare for_upto.simps [simp del]

lemma for_upto_rule:
  assumes le: "i \<le> n" and init: "P (unat i) s"
    and step: "\<And>k s. unat i \<le> k \<Longrightarrow> k < unat n \<Longrightarrow> P k s \<Longrightarrow>
                 \<exists>s'. body (of_nat k) s = Inr s' \<and> P (Suc k) s'"
  shows "\<exists>s'. for_upto i n body s = Inr s' \<and> P (unat n) s'"
  using le init step
proof (induction "unat n - unat i" arbitrary: i s)
  case 0
  then have "i = n"
    by (simp add: word_le_nat_alt word_unat_eq_iff)
  with 0 show ?case
    by (subst for_upto.simps) simp
next
  case (Suc d)
  then have lt: "unat i < unat n" by arith
  then have lt': "i < n" by (simp add: word_less_nat_alt)
  have "unat n < 2 ^ 64" using unsigned_less [of n] by simp
  with lt have suc: "unat (i + 1) = Suc (unat i)"
    by (simp add: unat_word_ariths)
  from Suc.prems(3) [of "unat i" s] lt Suc.prems(2)
  obtain s' where b: "body i s = Inr s'" and p: "P (Suc (unat i)) s'"
    by auto
  have "\<exists>s''. for_upto (i + 1) n body s' = Inr s'' \<and> P (unat n) s''"
  proof (rule Suc.hyps(1))
    show "d = unat n - unat (i + 1)" using Suc.hyps(2) suc by arith
    show "i + 1 \<le> n" using lt suc by (simp add: word_le_nat_alt)
    show "P (unat (i + 1)) s'" using p suc by simp
    show "\<And>k s. unat (i + 1) \<le> k \<Longrightarrow> k < unat n \<Longrightarrow> P k s \<Longrightarrow>
            \<exists>s'. body (word_of_nat k) s = Inr s' \<and> P (Suc k) s'"
      using Suc.prems(3) suc by simp
  qed
  then show ?case
    using lt' b by (subst for_upto.simps) simp
qed

lemma while_loop_rule:
  assumes init: "I s"
    and step: "\<And>s. I s \<Longrightarrow> cond s \<Longrightarrow> \<exists>s'. body s = Some (Inr s') \<and> I s' \<and> f s' < (f s :: nat)"
  shows "\<exists>s'. while_loop cond body s = Some (Inr s') \<and> I s' \<and> \<not> cond s'"
  using init
proof (induction "f s" arbitrary: s rule: less_induct)
  case less
  show ?case
  proof (cases "cond s")
    case False
    with less.prems show ?thesis
      by (subst while_loop.simps) simp
  next
    case True
    from step [OF less.prems True] obtain s1 where
      b: "body s = Some (Inr s1)" and i1: "I s1" and dec: "f s1 < f s"
      by blast
    from less.hyps [OF dec i1] obtain s' where
      "while_loop cond body s1 = Some (Inr s')" "I s'" "\<not> cond s'"
      by blast
    with True b show ?thesis
      by (subst while_loop.simps) simp
  qed
qed

lemma for_from_rule:
  assumes init: "I x0 s0"
    and step: "\<And>x s. I x s \<Longrightarrow> cond x \<Longrightarrow>
                 \<exists>s'. body x s = Some (Inr s') \<and> I (incr x) s' \<and> f (incr x) < (f x :: nat)"
  shows "\<exists>x s. for_from x0 cond incr body s0 = Some (Inr (x, s)) \<and> I x s \<and> \<not> cond x"
proof -
  let ?I = "\<lambda>(x, s). I x s"
  have "\<exists>xs. while_loop (\<lambda>(x, s). cond x)
            (\<lambda>(x, s). bindO (body x s) (\<lambda>s'. Some (Inr (incr x, s')))) (x0, s0) = Some (Inr xs)
          \<and> ?I xs \<and> \<not> (\<lambda>(x, s). cond x) xs"
  proof (rule while_loop_rule [where I = ?I and f = "\<lambda>(x, s). f x"])
    show "?I (x0, s0)" using init by simp
    fix xs
    assume a: "?I xs" "(\<lambda>(x, s). cond x) xs"
    obtain x s where xs: "xs = (x, s)" by (cases xs)
    with a step [of x s] obtain s' where
      "body x s = Some (Inr s')" "I (incr x) s'" "f (incr x) < f x"
      by auto
    then show "\<exists>s'. (\<lambda>(x, s). bindO (body x s) (\<lambda>s'. Some (Inr (incr x, s')))) xs = Some (Inr s')
            \<and> ?I s' \<and> (\<lambda>(x, s). f x) s' < (\<lambda>(x, s). f x) xs"
      by (simp add: xs)
  qed
  then show ?thesis
    by (auto simp: for_from_def)
qed

lemma for_loop_rule:
  assumes init: "I x0 s0"
    and step: "\<And>x s. I x s \<Longrightarrow> cond x \<Longrightarrow>
                 \<exists>s'. body x s = Some (Inr s') \<and> I (incr x) s' \<and> f (incr x) < (f x :: nat)"
  shows "\<exists>x s. for_loop x0 cond incr body s0 = Some (Inr s) \<and> I x s \<and> \<not> cond x"
proof -
  from for_from_rule [of I x0 s0 cond body incr f, OF init step]
  obtain x s where "for_from x0 cond incr body s0 = Some (Inr (x, s))" "I x s" "\<not> cond x"
    by blast
  then show ?thesis
    by (auto simp: for_loop_def)
qed

text \<open>Unit stride: the counter runs through \<open>lo, lo + 1, \<dots>, hi - 1\<close> and ends at \<open>hi\<close>.\<close>

lemma for_from_upto:
  assumes le: "lo \<le> hi" and init: "P (unat lo) s0"
    and step: "\<And>k s. unat lo \<le> k \<Longrightarrow> k < unat hi \<Longrightarrow> P k s \<Longrightarrow>
                 \<exists>s'. body (of_nat k) s = Some (Inr s') \<and> P (Suc k) s'"
  shows "\<exists>s'. for_from lo (\<lambda>i. i < hi) (\<lambda>i. i + 1) body s0 = Some (Inr (hi, s')) \<and> P (unat hi) s'"
proof -
  let ?I = "\<lambda>x s. lo \<le> x \<and> x \<le> hi \<and> P (unat x) s"
  have "\<exists>x s. for_from lo (\<lambda>i. i < hi) (\<lambda>i. i + 1) body s0 = Some (Inr (x, s)) \<and> ?I x s \<and> \<not> x < hi"
  proof (rule for_from_rule [where I = ?I and f = "\<lambda>x. unat hi - unat x"])
    show "?I lo s0" using le init by simp
    fix x s
    assume I: "?I x s" and c: "x < hi"
    from c have lt: "unat x < unat hi" by (simp add: word_less_nat_alt)
    have "unat hi < 2 ^ 64" using unsigned_less [of hi] by simp
    with lt have suc: "unat (x + 1) = Suc (unat x)" by (simp add: unat_word_ariths)
    from I have "unat lo \<le> unat x" by (simp add: word_le_nat_alt)
    from step [OF this lt] I obtain s' where "body x s = Some (Inr s')" "P (Suc (unat x)) s'"
      by auto
    moreover have "lo \<le> x + 1" "x + 1 \<le> hi"
      using suc lt \<open>unat lo \<le> unat x\<close> by (simp_all add: word_le_nat_alt)
    ultimately show "\<exists>s'. body x s = Some (Inr s') \<and> ?I (x + 1) s' \<and>
            unat hi - unat (x + 1) < unat hi - unat x"
      using suc lt by simp
  qed
  then obtain x s where run: "for_from lo (\<lambda>i. i < hi) (\<lambda>i. i + 1) body s0 = Some (Inr (x, s))"
    and I: "?I x s" and ex: "\<not> x < hi" by blast
  from I ex have "x = hi" by simp
  with run I show ?thesis by blast
qed

lemma for_loop_upto:
  assumes le: "lo \<le> hi" and init: "P (unat lo) s0"
    and step: "\<And>k s. unat lo \<le> k \<Longrightarrow> k < unat hi \<Longrightarrow> P k s \<Longrightarrow>
                 \<exists>s'. body (of_nat k) s = Some (Inr s') \<and> P (Suc k) s'"
  shows "\<exists>s'. for_loop lo (\<lambda>i. i < hi) (\<lambda>i. i + 1) body s0 = Some (Inr s') \<and> P (unat hi) s'"
proof -
  from for_from_upto [of lo hi P s0 body, OF le init step]
  obtain s' where "for_from lo (\<lambda>i. i < hi) (\<lambda>i. i + 1) body s0 = Some (Inr (hi, s'))"
    "P (unat hi) s'" by blast
  then show ?thesis by (auto simp: for_loop_def)
qed

text \<open>
  Stride \<open>t\<close> from 0: the counter runs through \<open>0, t, 2 t, \<dots>\<close> below \<open>n\<close>, provided
  \<open>n + t\<close> does not wrap.
\<close>

lemma for_loop_stride:
  fixes n t :: size_t
  assumes pos: "0 < unat t" and nowrap: "unat n + unat t < 2 ^ 64" and init: "P 0 s0"
    and step: "\<And>q s. q * unat t < unat n \<Longrightarrow> P q s \<Longrightarrow>
                 \<exists>s'. body (of_nat (q * unat t)) s = Some (Inr s') \<and> P (Suc q) s'"
  shows "\<exists>q s'. for_loop 0 (\<lambda>x. x < n) (\<lambda>x. x + t) body s0 = Some (Inr s') \<and> P q s'
           \<and> unat n \<le> q * unat t \<and> (\<forall>q'<q. q' * unat t < unat n)"
proof -
  let ?I = "\<lambda>x s. \<exists>q. unat x = q * unat t \<and> P q s \<and> (\<forall>q'<q. q' * unat t < unat n)"
  have "\<exists>x s. for_loop 0 (\<lambda>x. x < n) (\<lambda>x. x + t) body s0 = Some (Inr s) \<and> ?I x s \<and> \<not> x < n"
  proof (rule for_loop_rule [where I = ?I and f = "\<lambda>x. unat n + unat t - unat x"])
    show "?I 0 s0" using init by (intro exI [of _ 0]) simp
    fix x s
    assume I: "?I x s" and c: "x < n"
    then obtain q where q: "unat x = q * unat t" "P q s" "\<forall>q'<q. q' * unat t < unat n"
      by blast
    from c have lt: "unat x < unat n" by (simp add: word_less_nat_alt)
    with nowrap have add: "unat (x + t) = unat x + unat t"
      by (simp add: unat_word_ariths)
    have xq: "x = of_nat (q * unat t)"
      using q(1) [symmetric] by simp
    from step [of q s] lt q obtain s' where b: "body (of_nat (q * unat t)) s = Some (Inr s')"
      and P': "P (Suc q) s'" by auto
    have "\<forall>q'<Suc q. q' * unat t < unat n"
      using q(3) lt q(1) by (auto simp: less_Suc_eq)
    with P' add q(1) have "?I (x + t) s'"
      by (intro exI [of _ "Suc q"]) simp
    moreover have "unat n + unat t - unat (x + t) < unat n + unat t - unat x"
      using add pos lt by simp
    ultimately show "\<exists>s'. body x s = Some (Inr s') \<and> ?I (x + t) s' \<and>
            unat n + unat t - unat (x + t) < unat n + unat t - unat x"
      using b xq by auto
  qed
  then obtain x s q where "for_loop 0 (\<lambda>x. x < n) (\<lambda>x. x + t) body s0 = Some (Inr s)"
    "unat x = q * unat t" "P q s" "\<forall>q'<q. q' * unat t < unat n" "\<not> x < n"
    by blast
  then show ?thesis
    by (intro exI [of _ q] exI [of _ s]) (simp add: word_less_nat_alt)
qed

lemma while_loop_fault_rule:
  assumes init: "I s"
    and step: "\<And>s. I s \<Longrightarrow> cond s \<and> (body s = Some (Inl e) \<or>
                 (\<exists>s'. body s = Some (Inr s') \<and> I s' \<and> f s' < (f s :: nat)))"
  shows "while_loop cond body s = Some (Inl e)"
  using init
proof (induction "f s" arbitrary: s rule: less_induct)
  case less
  from step [OF less.prems] have c: "cond s" by simp
  from step [OF less.prems] consider (fault) "body s = Some (Inl e)"
    | (go) s' where "body s = Some (Inr s')" "I s'" "f s' < f s"
    by blast
  then show ?case
  proof cases
    case fault
    with c show ?thesis by (subst while_loop.simps) simp
  next
    case go
    from less.hyps [OF go(3) go(2)] c go(1) show ?thesis
      by (subst while_loop.simps) simp
  qed
qed

lemma for_from_fault_rule:
  assumes init: "I x0 s0"
    and step: "\<And>x s. I x s \<Longrightarrow> cond x \<and> (body x s = Some (Inl e) \<or>
                 (\<exists>s'. body x s = Some (Inr s') \<and> I (incr x) s' \<and> f (incr x) < (f x :: nat)))"
  shows "for_from x0 cond incr body s0 = Some (Inl e)"
proof -
  let ?I = "\<lambda>(x, s). I x s"
  have "while_loop (\<lambda>(x, s). cond x)
            (\<lambda>(x, s). bindO (body x s) (\<lambda>s'. Some (Inr (incr x, s')))) (x0, s0) = Some (Inl e)"
  proof (rule while_loop_fault_rule [where I = ?I and f = "\<lambda>(x, s). f x"])
    show "?I (x0, s0)" using init by simp
    fix xs
    assume a: "?I xs"
    obtain x s where xs: "xs = (x, s)" by (cases xs)
    with a step [of x s] show "(\<lambda>(x, s). cond x) xs \<and>
        ((\<lambda>(x, s). bindO (body x s) (\<lambda>s'. Some (Inr (incr x, s')))) xs = Some (Inl e) \<or>
         (\<exists>s'. (\<lambda>(x, s). bindO (body x s) (\<lambda>s'. Some (Inr (incr x, s')))) xs = Some (Inr s')
            \<and> ?I s' \<and> (\<lambda>(x, s). f x) s' < (\<lambda>(x, s). f x) xs))"
      by auto
  qed
  then show ?thesis by (simp add: for_from_def)
qed

lemma for_loop_fault_rule:
  assumes init: "I x0 s0"
    and step: "\<And>x s. I x s \<Longrightarrow> cond x \<and> (body x s = Some (Inl e) \<or>
                 (\<exists>s'. body x s = Some (Inr s') \<and> I (incr x) s' \<and> f (incr x) < (f x :: nat)))"
  shows "for_loop x0 cond incr body s0 = Some (Inl e)"
  using for_from_fault_rule [of I x0 s0 cond body e incr f, OF init step]
  by (simp add: for_loop_def)

lemma for_loop_first_fault:
  assumes "cond x0" and "body x0 s0 = Some (Inl e)"
  shows "for_loop x0 cond incr body s0 = Some (Inl e)"
  using assms by (simp add: for_loop_def for_from_def while_loop.simps [of _ _ "(x0, s0)"])

text \<open>A unit-stride loop that faults before its counter reaches the bound.\<close>

lemma for_loop_upto_fault:
  assumes init: "P (unat lo) s0"
    and step: "\<And>k s. P k s \<Longrightarrow> k < unat hi \<and> (body (of_nat k) s = Some (Inl e) \<or>
                 (\<exists>s'. body (of_nat k) s = Some (Inr s') \<and> P (Suc k) s'))"
  shows "for_loop lo (\<lambda>i. i < hi) (\<lambda>i. i + 1) body s0 = Some (Inl e)"
proof (rule for_loop_fault_rule [where I = "\<lambda>x s. P (unat x) s" and f = "\<lambda>x. unat hi - unat x"])
  show "P (unat lo) s0" by (rule init)
  fix x :: size_t and s
  assume P: "P (unat x) s"
  from step [OF P] have lt: "unat x < unat hi" by simp
  have "unat hi < 2 ^ 64" using unsigned_less [of hi] by simp
  with lt have suc: "unat (x + 1) = Suc (unat x)" by (simp add: unat_word_ariths)
  from step [OF P] lt suc
  show "x < hi \<and> (body x s = Some (Inl e) \<or>
      (\<exists>s'. body x s = Some (Inr s') \<and> P (unat (x + 1)) s' \<and>
         unat hi - unat (x + 1) < unat hi - unat x))"
    by (auto simp: word_less_nat_alt)
qed

lemma idx_unat:
  fixes r c :: size_t
  assumes "i < unat r" "j < unat c" "unat r * unat c < 2 ^ 64"
  shows "unat (of_nat i * c + of_nat j :: size_t) = i * unat c + j"
proof -
  have "i * unat c + j < Suc i * unat c" using assms(2) by simp
  also have "\<dots> \<le> unat r * unat c" using assms(1) by (intro mult_le_mono1) simp
  finally have b: "i * unat c + j < 2 ^ 64" using assms(3) by simp
  have "unat r < 2 ^ 64" "unat c < 2 ^ 64"
    using unsigned_less [of r] unsigned_less [of c] by simp_all
  then have "i < 2 ^ 64" "j < 2 ^ 64" using assms(1,2) by simp_all
  then have "unat (of_nat i :: size_t) = i" "unat (of_nat j :: size_t) = j"
    by (simp_all add: unat_of_nat)
  then show ?thesis using b
    by (simp add: unat_word_ariths mod_mult_left_eq mod_add_left_eq)
qed

lemma bytes_small: "8 * (x::nat) < 2 ^ 64 \<Longrightarrow> x < 2 ^ 64"
  by simp

section \<open>The naive kernel computes the product\<close>

lemma wf_matrixD:
  assumes "wf_matrix M"
  obtains buf where "data M = Some buf" "length buf = unat (rows M) * unat (cols M)"
    "unat (rows M) * unat (cols M) < 2 ^ 64"
  using assms by (auto simp: wf_matrix_def split: option.splits)

lemma offset_less: "i < n \<Longrightarrow> j < p \<Longrightarrow> i * p + j < n * (p::nat)"
proof -
  assume "i < n" "j < p"
  then have "i * p + j < Suc i * p" by simp
  also have "\<dots> \<le> n * p" using \<open>i < n\<close> by (intro mult_le_mono1) simp
  finally show ?thesis .
qed

lemma MATRIX_GET_wf:
  assumes "wf_matrix M" "data M = Some buf" "i < unat (rows M)" "j < unat (cols M)"
  shows "MATRIX_GET M (of_nat i) (of_nat j) = Inr (buf ! (i * unat (cols M) + j))"
proof -
  from assms(1,2) have len: "length buf = unat (rows M) * unat (cols M)"
    and small: "unat (rows M) * unat (cols M) < 2 ^ 64"
    by (auto elim: wf_matrixD)
  have "unat (of_nat i * cols M + of_nat j :: size_t) = i * unat (cols M) + j"
    using assms(3,4) small by (rule idx_unat)
  moreover have "i * unat (cols M) + j < length buf"
    using assms(3,4) len by (simp add: offset_less)
  ultimately show ?thesis
    using assms(2) by (simp add: MATRIX_GET_def)
qed

lemma MATRIX_SET_wf:
  assumes "data M = Some buf" "length buf = unat (rows M) * unat (cols M)"
    "unat (rows M) * unat (cols M) < 2 ^ 64" "i < unat (rows M)" "j < unat (cols M)"
  shows "MATRIX_SET M (of_nat i) (of_nat j) v =
           Inr (M\<lparr>data := Some (buf[i * unat (cols M) + j := v])\<rparr>)"
proof -
  have "unat (of_nat i * cols M + of_nat j :: size_t) = i * unat (cols M) + j"
    using assms(4,5,3) by (rule idx_unat)
  moreover have "i * unat (cols M) + j < length buf"
    using assms(2,4,5) by (simp add: offset_less)
  ultimately show ?thesis
    using assms(1) by (simp add: MATRIX_SET_def)
qed

lemma accumulate_wf:
  assumes "wf_matrix a" "wf_matrix b" "cols a = rows b" "data a = Some da" "data b = Some db"
    "i < unat (rows a)" "k < unat (cols a)" "j < unat (cols b)"
  shows "accumulate a b (of_nat i) (of_nat k) (of_nat j) acc =
           Inr (acc + da ! (i * unat (cols a) + k) * db ! (k * unat (cols b) + j))"
proof -
  have "MATRIX_GET a (of_nat i) (of_nat k) = Inr (da ! (i * unat (cols a) + k))"
    using assms(1,4,6,7) by (rule MATRIX_GET_wf)
  moreover have "MATRIX_GET b (of_nat k) (of_nat j) = Inr (db ! (k * unat (cols b) + j))"
    using assms(2,5) assms(7,8) [unfolded assms(3)] by (intro MATRIX_GET_wf) (simp_all add: assms(3) [symmetric] assms(7))
  ultimately show ?thesis
    by (simp add: accumulate_def)
qed

lemma naive_k_loop:
  assumes "wf_matrix a" "wf_matrix b" "cols a = rows b" "data a = Some da" "data b = Some db"
    "i < unat (rows a)" "j < unat (cols b)"
  shows "for_upto 0 (cols a) (\<lambda>k sum. accumulate a b (of_nat i) k (of_nat j) sum) 0 =
           Inr (dot da db (unat (cols a)) (unat (cols b)) i j)"
proof -
  let ?P = "\<lambda>k s. s = (\<Sum>t = 0..<k. da ! (i * unat (cols a) + t) * db ! (t * unat (cols b) + j))"
  have "\<exists>s'. for_upto 0 (cols a) (\<lambda>k sum. accumulate a b (of_nat i) k (of_nat j) sum) 0 = Inr s'
          \<and> ?P (unat (cols a)) s'"
  proof (rule for_upto_rule [where P = ?P])
    show "(0::size_t) \<le> cols a" by simp
    show "?P (unat (0::size_t)) 0" by simp
    fix k s
    assume "unat (0::size_t) \<le> k" "k < unat (cols a)" "?P k s"
    then show "\<exists>s'. accumulate a b (of_nat i) (of_nat k) (of_nat j) s = Inr s' \<and> ?P (Suc k) s'"
      using accumulate_wf [OF assms(1-6) _ assms(7), of k s] by simp
  qed
  then show ?thesis by (auto simp: dot_def)
qed

lemma take_Suc_update:
  "idx < length buf \<Longrightarrow> take (Suc idx) (buf[idx := v]) = take idx buf @ [v]"
  by (simp add: take_Suc_conv_app_nth)

lemma div_mod_offset: "j < p \<Longrightarrow> (i * p + j) div p = i \<and> (i * p + j) mod (p::nat) = j"
  by simp

lemma naive_j_loop:
  fixes a b c' :: Matrix
  defines "n \<equiv> unat (rows a)" and "m \<equiv> unat (cols a)" and "p \<equiv> unat (cols b)"
  defines "f \<equiv> \<lambda>idx. dot (the (data a)) (the (data b)) m p (idx div p) (idx mod p)"
  assumes ab: "wf_matrix a" "wf_matrix b" "cols a = rows b"
    and i: "i < n"
    and c': "rows c' = rows a" "cols c' = cols b" "data c' = Some buf"
      "length buf = n * p" "n * p < 2 ^ 64"
    and pre: "take (i * p) buf = map f [0..<i * p]"
  shows "\<exists>buf'. for_upto 0 (cols b) (\<lambda>j (c', stores).
                    bindR (for_upto 0 (cols a) (\<lambda>k sum. accumulate a b (of_nat i) k j sum) 0) (\<lambda>sum.
                    bindR (MATRIX_SET c' (of_nat i) j sum) (\<lambda>c''.
                    Inr (c'', stores @ [unat (of_nat i * cols c' + j)])))) (c', st)
            = Inr (c'\<lparr>data := Some buf'\<rparr>, st @ [i * p..<Suc i * p])
          \<and> length buf' = n * p \<and> take (Suc i * p) buf' = map f [0..<Suc i * p]"
proof -
  obtain da db where da: "data a = Some da" and db: "data b = Some db"
    using ab(1,2) by (auto elim!: wf_matrixD)
  let ?body = "\<lambda>j (c', stores).
                    bindR (for_upto 0 (cols a) (\<lambda>k sum. accumulate a b (of_nat i) k j sum) 0) (\<lambda>sum.
                    bindR (MATRIX_SET c' (of_nat i) j sum) (\<lambda>c''.
                    Inr (c'', stores @ [unat (of_nat i * cols c' + j)])))"
  let ?P = "\<lambda>j s. \<exists>buf'. s = (c'\<lparr>data := Some buf'\<rparr>, st @ [i * p..<i * p + j])
              \<and> length buf' = n * p \<and> take (i * p + j) buf' = map f [0..<i * p + j]"
  have "\<exists>s'. for_upto 0 (cols b) ?body (c', st) = Inr s' \<and> ?P (unat (cols b)) s'"
  proof (rule for_upto_rule [where P = ?P])
    show "(0::size_t) \<le> cols b" by simp
    show "?P (unat (0::size_t)) (c', st)"
      using c'(3,4) pre by (intro exI [of _ buf]) simp
    fix j s
    assume "unat (0::size_t) \<le> j" and j: "j < unat (cols b)" and P: "?P j s"
    from P obtain buf' where s: "s = (c'\<lparr>data := Some buf'\<rparr>, st @ [i * p..<i * p + j])"
      and len: "length buf' = n * p" and tk: "take (i * p + j) buf' = map f [0..<i * p + j]"
      by blast
    let ?c = "c'\<lparr>data := Some buf'\<rparr>"
    have k: "for_upto 0 (cols a) (\<lambda>k sum. accumulate a b (of_nat i) k (of_nat j) sum) 0 =
               Inr (dot da db m p i j)"
      unfolding m_def p_def using ab da db i [unfolded n_def] j by (rule naive_k_loop)
    have idx: "unat (of_nat i * cols b + of_nat j :: size_t) = i * p + j"
      unfolding p_def
    proof (rule idx_unat)
      show "i < unat (rows a)" using i by (simp add: n_def)
      show "j < unat (cols b)" by (rule j)
      show "unat (rows a) * unat (cols b) < 2 ^ 64" using c'(5) by (simp add: n_def p_def)
    qed
    have lt: "i * p + j < n * p"
      using i j by (simp add: offset_less p_def)
    have set: "MATRIX_SET ?c (of_nat i) (of_nat j) v = Inr (c'\<lparr>data := Some (buf'[i * p + j := v])\<rparr>)" for v
      using idx lt len c'(2) by (simp add: MATRIX_SET_def)
    have fv: "f (i * p + j) = dot da db m p i j"
      using j da db by (simp add: f_def p_def)
    have "take (Suc (i * p + j)) (buf'[i * p + j := dot da db m p i j]) =
            map f [0..<Suc (i * p + j)]"
      using lt len tk fv by (simp add: take_Suc_update)
    then have "?P (Suc j) (c'\<lparr>data := Some (buf'[i * p + j := dot da db m p i j])\<rparr>,
                 st @ [i * p..<i * p + j] @ [i * p + j])"
      using len by (intro exI [of _ "buf'[i * p + j := dot da db m p i j]"]) simp
    moreover have "?body (of_nat j) s =
        Inr (c'\<lparr>data := Some (buf'[i * p + j := dot da db m p i j])\<rparr>,
             st @ [i * p..<i * p + j] @ [i * p + j])"
      using k set idx c'(2) by (simp add: s)
    ultimately show "\<exists>s'. ?body (of_nat j) s = Inr s' \<and> ?P (Suc j) s'"
      by blast
  qed
  then show ?thesis
    by (auto simp: p_def add.commute)
qed

lemma naive_steps_wf:
  fixes a b c :: Matrix
  defines "n \<equiv> unat (rows a)" and "m \<equiv> unat (cols a)" and "p \<equiv> unat (cols b)"
  assumes wf: "wf_matrix a" "wf_matrix b" "wf_matrix c" and compat: "compatible a b c"
  shows "matrix_mult_naive_steps (Some a) (Some b) (Some c) =
           Inr (Some (c\<lparr>data := Some (product_buf (the (data a)) (the (data b)) n m p)\<rparr>),
                [0..<n * p])"
proof -
  obtain da db dc where da: "data a = Some da" and db: "data b = Some db"
    and dc: "data c = Some dc" and lenc: "length dc = unat (rows c) * unat (cols c)"
    and smallc: "unat (rows c) * unat (cols c) < 2 ^ 64"
    using wf by (auto elim!: wf_matrixD)
  from compat have dims: "cols a = rows b" "rows c = rows a" "cols c = cols b"
    by (simp_all add: compatible_def)
  define f where "f = (\<lambda>idx. dot (the (data a)) (the (data b)) m p (idx div p) (idx mod p))"
  let ?body = "\<lambda>i. for_upto 0 (cols b) (\<lambda>j (c', stores).
                    bindR (for_upto 0 (cols a) (\<lambda>k sum. accumulate a b i k j sum) 0) (\<lambda>sum.
                    bindR (MATRIX_SET c' i j sum) (\<lambda>c''.
                    Inr (c'', stores @ [unat (i * cols c' + j)]))))"
  let ?P = "\<lambda>i s. \<exists>buf'. s = (c\<lparr>data := Some buf'\<rparr>, [0..<i * p])
              \<and> length buf' = n * p \<and> take (i * p) buf' = map f [0..<i * p]"
  have "\<exists>s'. for_upto 0 (rows a) ?body (c, []) = Inr s' \<and> ?P (unat (rows a)) s'"
  proof (rule for_upto_rule [where P = ?P])
    show "(0::size_t) \<le> rows a" by simp
    show "?P (unat (0::size_t)) (c, [])"
      using dc lenc dims by (intro exI [of _ dc]) (simp add: n_def p_def)
    fix i s
    assume "unat (0::size_t) \<le> i" and i: "i < unat (rows a)" and P: "?P i s"
    from P obtain buf' where s: "s = (c\<lparr>data := Some buf'\<rparr>, [0..<i * p])"
      and len: "length buf' = n * p" and tk: "take (i * p) buf' = map f [0..<i * p]"
      by blast
    have "\<exists>buf''. ?body (of_nat i) (c\<lparr>data := Some buf'\<rparr>, [0..<i * p])
            = Inr (c\<lparr>data := Some buf'\<rparr>\<lparr>data := Some buf''\<rparr>, [0..<i * p] @ [i * p..<Suc i * p])
          \<and> length buf'' = n * p \<and> take (Suc i * p) buf'' = map f [0..<Suc i * p]"
      unfolding n_def p_def f_def m_def
    proof (rule naive_j_loop)
      show "wf_matrix a" "wf_matrix b" "cols a = rows b" by (rule wf dims)+
      show "i < unat (rows a)" by (rule i)
      show "rows (c\<lparr>data := Some buf'\<rparr>) = rows a" "cols (c\<lparr>data := Some buf'\<rparr>) = cols b"
        using dims by simp_all
      show "data (c\<lparr>data := Some buf'\<rparr>) = Some buf'" by simp
      show "length buf' = unat (rows a) * unat (cols b)" using len by (simp add: n_def p_def)
      show "unat (rows a) * unat (cols b) < 2 ^ 64" using smallc dims by simp
      show "take (i * unat (cols b)) buf' =
          map (\<lambda>idx. dot (the (data a)) (the (data b)) (unat (cols a)) (unat (cols b))
                 (idx div unat (cols b)) (idx mod unat (cols b))) [0..<i * unat (cols b)]"
        using tk by (simp add: f_def p_def m_def)
    qed
    then obtain buf'' where
      run: "?body (of_nat i) s = Inr (c\<lparr>data := Some buf''\<rparr>, [0..<i * p] @ [i * p..<Suc i * p])"
      and len'': "length buf'' = n * p" and tk'': "take (Suc i * p) buf'' = map f [0..<Suc i * p]"
      by (auto simp: s)
    have "[0..<i * p] @ [i * p..<Suc i * p] = [0..<Suc i * p]"
      by (metis le_add2 mult_Suc upt_add_eq_append zero_le add.commute)
    with run len'' tk'' show "\<exists>s'. ?body (of_nat i) s = Inr s' \<and> ?P (Suc i) s'"
      by auto
  qed
  then obtain buf' where run: "for_upto 0 (rows a) ?body (c, []) = Inr (c\<lparr>data := Some buf'\<rparr>, [0..<n * p])"
    and len: "length buf' = n * p" and tk: "take (n * p) buf' = map f [0..<n * p]"
    by (auto simp: n_def)
  from len tk have "buf' = product_buf (the (data a)) (the (data b)) n m p"
    by (simp add: product_buf_def f_def)
  with run show ?thesis
    using da db dc dims by (simp add: matrix_mult_naive_steps_def n_def p_def)
qed

lemma count_list_upt: "count_list [a..<b] x = (if a \<le> x \<and> x < b then 1 else 0)"
  by (induction b) auto

lemma product_buf_nth:
  "i < n \<Longrightarrow> j < p \<Longrightarrow> product_buf da db n m p ! (i * p + j) = dot da db m p i j"
  by (simp add: product_buf_def offset_less)


text \<open>
  Claim C2.  Given well-formed, dimension-compatible \<open>A\<close> (\<open>n \<times> m\<close>), \<open>B\<close> (\<open>m \<times> p\<close>) and
  \<open>C\<close> (\<open>n \<times> p\<close>), the naive kernel returns the matrix whose element \<open>(i, j)\<close> is the sum
  of \<open>A[i][k] * B[k][j]\<close> over \<open>k\<close> in \<open>[0, m)\<close>.  Its stores are, in program order, to the
  offsets \<open>0, 1, \<dots>, n * p - 1\<close>, so every element \<open>C[i][j]\<close> is assigned exactly once.  The
  result does not mention the previous contents of \<open>C\<close>: no pre-zeroing is required.
\<close>

theorem naive_kernel_correct:
  fixes a b c :: Matrix
  defines "n \<equiv> unat (rows a)" and "m \<equiv> unat (cols a)" and "p \<equiv> unat (cols b)"
  assumes "wf_matrix a" and "wf_matrix b" and "wf_matrix c" and "compatible a b c"
    and "data a = Some da" and "data b = Some db"
  shows "matrix_mult_naive_steps (Some a) (Some b) (Some c) =
           Inr (Some \<lparr>data = Some (product_buf da db n m p), rows = rows a, cols = cols b\<rparr>,
                [0..<n * p])
       \<and> matrix_mult_naive (Some a) (Some b) (Some c) =
           Inr (Some \<lparr>data = Some (product_buf da db n m p), rows = rows a, cols = cols b\<rparr>)
       \<and> length (product_buf da db n m p) = n * p
       \<and> (\<forall>i<n. \<forall>j<p.
             product_buf da db n m p ! (i * p + j) =
               (\<Sum>k = 0..<m. da ! (i * m + k) * db ! (k * p + j))
           \<and> count_list [0..<n * p] (i * p + j) = 1)"
proof -
  have "c\<lparr>data := Some (product_buf da db n m p)\<rparr> =
          \<lparr>data = Some (product_buf da db n m p), rows = rows a, cols = cols b\<rparr>"
    using assms(7) by (cases c) (simp add: compatible_def)
  then have steps: "matrix_mult_naive_steps (Some a) (Some b) (Some c) =
           Inr (Some \<lparr>data = Some (product_buf da db n m p), rows = rows a, cols = cols b\<rparr>,
                [0..<n * p])"
    using naive_steps_wf [OF assms(4-7)] assms(8,9) by (simp add: n_def m_def p_def)
  moreover from steps have "matrix_mult_naive (Some a) (Some b) (Some c) =
           Inr (Some \<lparr>data = Some (product_buf da db n m p), rows = rows a, cols = cols b\<rparr>)"
    by (simp add: matrix_mult_naive_def)
  moreover have "length (product_buf da db n m p) = n * p"
    by (simp add: product_buf_def)
  moreover have "\<forall>i<n. \<forall>j<p.
             product_buf da db n m p ! (i * p + j) =
               (\<Sum>k = 0..<m. da ! (i * m + k) * db ! (k * p + j))
           \<and> count_list [0..<n * p] (i * p + j) = 1"
    by (simp add: product_buf_nth dot_def count_list_upt offset_less)
  ultimately show ?thesis by blast
qed

theorem naive_kernel_correct_witness:
  "wf_matrix (mk_matrix 2 2 [1, 2, 3, 4]) \<and> wf_matrix (mk_matrix 2 2 [5, 6, 7, 8])
   \<and> wf_matrix (mk_matrix 2 2 [9, 9, 9, 9])
   \<and> compatible (mk_matrix 2 2 [1, 2, 3, 4]) (mk_matrix 2 2 [5, 6, 7, 8]) (mk_matrix 2 2 [9, 9, 9, 9])
   \<and> matrix_mult_naive (Some (mk_matrix 2 2 [1, 2, 3, 4])) (Some (mk_matrix 2 2 [5, 6, 7, 8]))
        (Some (mk_matrix 2 2 [9, 9, 9, 9])) = Inr (Some (mk_matrix 2 2 [19, 22, 43, 50]))"
proof -
  have wa: "wf_matrix (mk_matrix 2 2 [1, 2, 3, 4])"
    and wb: "wf_matrix (mk_matrix 2 2 [5, 6, 7, 8])"
    and wc: "wf_matrix (mk_matrix 2 2 [9, 9, 9, 9])"
    by (simp_all add: wf_matrix_def mk_matrix_def)
  have co: "compatible (mk_matrix 2 2 [1, 2, 3, 4]) (mk_matrix 2 2 [5, 6, 7, 8])
              (mk_matrix 2 2 [9, 9, 9, 9])"
    by (simp add: compatible_def mk_matrix_def)
  have da: "data (mk_matrix 2 2 [1, 2, 3, 4]) = Some [1, 2, 3, 4]"
    and db: "data (mk_matrix 2 2 [5, 6, 7, 8]) = Some [5, 6, 7, 8]"
    by (simp_all add: mk_matrix_def)
  have pb: "product_buf [1, 2, 3, 4] [5, 6, 7, 8] 2 2 2 = [19, 22, 43, 50]"
    by code_simp
  from naive_kernel_correct [OF wa wb wc co da db] pb wa wb wc co show ?thesis
    by (simp add: mk_matrix_def)
qed


section \<open>Dimension check\<close>

text \<open>
  Claim C5.  When the dimension-compatibility invariant \<open>A.cols = B.rows\<close>,
  \<open>C.rows = A.rows\<close>, \<open>C.cols = B.cols\<close> is violated, each of the three kernels (naive,
  tiled, vector-simulated) returns with \<open>C\<close> exactly as it was, and the naive kernel has
  performed no store.
\<close>

theorem kernels_ignore_incompatible:
  assumes "\<not> compatible a b c"
  shows "matrix_mult_naive_steps (Some a) (Some b) (Some c) = Inr (Some c, [])
       \<and> matrix_mult_naive (Some a) (Some b) (Some c) = Inr (Some c)
       \<and> matrix_mult_tiled (Some a) (Some b) (Some c) tile_size = Some (Inr (Some c))
       \<and> matrix_mult_vector (Some a) (Some b) (Some c) = Some (Inr (Some c))"
proof -
  from assms have mismatch: "cols a \<noteq> rows b \<or> rows a \<noteq> rows c \<or> cols b \<noteq> cols c"
    by (auto simp: compatible_def)
  then have steps: "matrix_mult_naive_steps (Some a) (Some b) (Some c) = Inr (Some c, [])"
    by (simp add: matrix_mult_naive_steps_def)
  then have "matrix_mult_naive (Some a) (Some b) (Some c) = Inr (Some c)"
    by (simp add: matrix_mult_naive_def)
  moreover from mismatch
  have "matrix_mult_tiled (Some a) (Some b) (Some c) tile_size = Some (Inr (Some c))"
    by (simp add: matrix_mult_tiled_def)
  moreover from mismatch
  have "matrix_mult_vector (Some a) (Some b) (Some c) = Some (Inr (Some c))"
    by (simp add: matrix_mult_vector_def)
  ultimately show ?thesis using steps by blast
qed

theorem kernels_ignore_incompatible_witness:
  "\<not> compatible (mk_matrix 3 4 (replicate 12 1)) (mk_matrix 5 6 (replicate 30 1))
        (mk_matrix 3 6 (replicate 18 0))
   \<and> matrix_mult_naive (Some (mk_matrix 3 4 (replicate 12 1))) (Some (mk_matrix 5 6 (replicate 30 1)))
        (Some (mk_matrix 3 6 (replicate 18 0))) = Inr (Some (mk_matrix 3 6 (replicate 18 0)))
   \<and> matrix_mult_tiled (Some (mk_matrix 3 4 (replicate 12 1))) (Some (mk_matrix 5 6 (replicate 30 1)))
        (Some (mk_matrix 3 6 (replicate 18 0))) 64 = Some (Inr (Some (mk_matrix 3 6 (replicate 18 0))))
   \<and> matrix_mult_vector (Some (mk_matrix 3 4 (replicate 12 1))) (Some (mk_matrix 5 6 (replicate 30 1)))
        (Some (mk_matrix 3 6 (replicate 18 0))) = Some (Inr (Some (mk_matrix 3 6 (replicate 18 0))))"
proof -
  have h: "\<not> compatible (mk_matrix 3 4 (replicate 12 1)) (mk_matrix 5 6 (replicate 30 1))
        (mk_matrix 3 6 (replicate 18 0))"
    by (simp add: compatible_def mk_matrix_def)
  from kernels_ignore_incompatible [OF h, of 64] h show ?thesis
    by simp
qed

section \<open>Zeroing of the output by the accumulating kernels\<close>

lemma matrix_init_zero_wf:
  assumes "wf_matrix c"
  shows "matrix_init_zero (Some c) =
           Inr (Some \<lparr>data = Some (replicate (unat (rows c) * unat (cols c)) 0),
                      rows = rows c, cols = cols c\<rparr>)"
proof -
  from assms obtain buf where d: "data c = Some buf"
    and len: "length buf = unat (rows c) * unat (cols c)"
    and small: "8 * length buf < 2 ^ 64"
    by (auto simp only: wf_matrix_def split: option.splits)
  from small have "length buf < 2 ^ 64" by (rule bytes_small)
  with len have "unat (rows c) * unat (cols c) < 2 ^ 64" by simp
  then have "unat (rows c * cols c) = unat (rows c) * unat (cols c)"
    by (simp add: unat_word_ariths)
  with small len have n: "unat (rows c * cols c * 8) = 8 * length buf"
    by (simp add: unat_word_ariths)
  have "c\<lparr>data := Some x\<rparr> = \<lparr>data = Some x, rows = rows c, cols = cols c\<rparr>" for x
    by (cases c) simp
  then show ?thesis
    using d len n by (simp add: matrix_init_zero_def)
qed

text \<open>
  Claim C10.  The tiled and the vector-simulated kernel call \<^verbatim>\<open>matrix_init_zero(C)\<close>
  themselves after the dimension check.  For non-null, dimension-compatible inputs, two
  runs that differ only in the previous contents of a well-formed \<open>C\<close> have identical
  outcomes: the result is a function of \<open>A\<close>, \<open>B\<close> (and the tile size) alone.
\<close>

theorem accumulating_kernels_ignore_old_contents:
  assumes "wf_matrix c1" and "wf_matrix c2" and "rows c1 = rows c2" and "cols c1 = cols c2"
    and "data a \<noteq> None" and "data b \<noteq> None" and "compatible a b c1"
  shows "matrix_mult_tiled (Some a) (Some b) (Some c1) tile_size =
           matrix_mult_tiled (Some a) (Some b) (Some c2) tile_size
       \<and> matrix_mult_vector (Some a) (Some b) (Some c1) = matrix_mult_vector (Some a) (Some b) (Some c2)"
proof -
  have z: "matrix_init_zero (Some c1) = matrix_init_zero (Some c2)"
    using assms(1-4) by (simp add: matrix_init_zero_wf)
  have "data c1 \<noteq> None" "data c2 \<noteq> None"
    using assms(1,2) by (auto simp: wf_matrix_def split: option.splits)
  with assms(5,6) have nonnull:
    "(data a = None \<or> data b = None \<or> data c1 = None) = False"
    "(data a = None \<or> data b = None \<or> data c2 = None) = False"
    by simp_all
  have dims:
    "(cols a \<noteq> rows b \<or> rows a \<noteq> rows c1 \<or> cols b \<noteq> cols c1) = False"
    "(cols a \<noteq> rows b \<or> rows a \<noteq> rows c2 \<or> cols b \<noteq> cols c2) = False"
    using assms(3,4,7) by (simp_all add: compatible_def)
  have "matrix_mult_tiled (Some a) (Some b) (Some c1) tile_size =
           matrix_mult_tiled (Some a) (Some b) (Some c2) tile_size"
    unfolding matrix_mult_tiled_def
    by (simp only: prod.case option.case nonnull dims if_False z)
  moreover have "matrix_mult_vector (Some a) (Some b) (Some c1) =
           matrix_mult_vector (Some a) (Some b) (Some c2)"
    unfolding matrix_mult_vector_def
    by (simp only: prod.case option.case nonnull dims if_False z)
  ultimately show ?thesis ..
qed

theorem accumulating_kernels_ignore_old_contents_witness:
  "wf_matrix (mk_matrix 1 8 [9, 9, 9, 9, 9, 9, 9, 9]) \<and> wf_matrix (mk_matrix 1 8 [0, 1, 2, 3, 4, 5, 6, 7])
   \<and> compatible (mk_matrix 1 3 [1, 2, 3])
        (mk_matrix 3 8 [1, 2, 3, 4, 5, 6, 7, 8, 1, 0, 0, 0, 0, 0, 0, 2, 1, 1, 1, 1, 1, 1, 1, 1])
        (mk_matrix 1 8 [9, 9, 9, 9, 9, 9, 9, 9])
   \<and> matrix_mult_tiled (Some (mk_matrix 1 3 [1, 2, 3]))
        (Some (mk_matrix 3 8 [1, 2, 3, 4, 5, 6, 7, 8, 1, 0, 0, 0, 0, 0, 0, 2, 1, 1, 1, 1, 1, 1, 1, 1]))
        (Some (mk_matrix 1 8 [9, 9, 9, 9, 9, 9, 9, 9])) 3 =
      Some (Inr (Some (mk_matrix 1 8 [6, 5, 6, 7, 8, 9, 10, 15])))
   \<and> matrix_mult_tiled (Some (mk_matrix 1 3 [1, 2, 3]))
        (Some (mk_matrix 3 8 [1, 2, 3, 4, 5, 6, 7, 8, 1, 0, 0, 0, 0, 0, 0, 2, 1, 1, 1, 1, 1, 1, 1, 1]))
        (Some (mk_matrix 1 8 [0, 1, 2, 3, 4, 5, 6, 7])) 3 =
      Some (Inr (Some (mk_matrix 1 8 [6, 5, 6, 7, 8, 9, 10, 15])))
   \<and> matrix_mult_vector (Some (mk_matrix 1 3 [1, 2, 3]))
        (Some (mk_matrix 3 8 [1, 2, 3, 4, 5, 6, 7, 8, 1, 0, 0, 0, 0, 0, 0, 2, 1, 1, 1, 1, 1, 1, 1, 1]))
        (Some (mk_matrix 1 8 [9, 9, 9, 9, 9, 9, 9, 9])) =
      matrix_mult_vector (Some (mk_matrix 1 3 [1, 2, 3]))
        (Some (mk_matrix 3 8 [1, 2, 3, 4, 5, 6, 7, 8, 1, 0, 0, 0, 0, 0, 0, 2, 1, 1, 1, 1, 1, 1, 1, 1]))
        (Some (mk_matrix 1 8 [0, 1, 2, 3, 4, 5, 6, 7]))"
proof -
  let ?a = "mk_matrix 1 3 [1, 2, 3]"
  let ?b = "mk_matrix 3 8 [1, 2, 3, 4, 5, 6, 7, 8, 1, 0, 0, 0, 0, 0, 0, 2, 1, 1, 1, 1, 1, 1, 1, 1]"
  let ?c1 = "mk_matrix 1 8 [9, 9, 9, 9, 9, 9, 9, 9]"
  let ?c2 = "mk_matrix 1 8 [0, 1, 2, 3, 4, 5, 6, 7]"
  have wf: "wf_matrix ?c1" "wf_matrix ?c2"
    by (simp_all add: wf_matrix_def mk_matrix_def)
  have eq: "rows ?c1 = rows ?c2" "cols ?c1 = cols ?c2" and nn: "data ?a \<noteq> None" "data ?b \<noteq> None"
    and co: "compatible ?a ?b ?c1"
    by (simp_all add: mk_matrix_def compatible_def)
  have run: "matrix_mult_tiled (Some ?a) (Some ?b) (Some ?c1) 3 =
      Some (Inr (Some (mk_matrix 1 8 [6, 5, 6, 7, 8, 9, 10, 15])))"
    by code_simp
  from accumulating_kernels_ignore_old_contents [OF wf eq nn co, of 3] run wf co show ?thesis
    by simp
qed

section \<open>The vector-simulated kernel on at least 8 columns\<close>

text \<open>
  When \<open>p \<ge> 8\<close> the bound \<^verbatim>\<open>p - VECTOR_LENGTH\<close> does not wrap; the chunked loop then
  handles the full groups of 8 columns and the cleanup loop the rest, and the kernel
  returns the product.
\<close>

lemma partial_dot_Suc:
  "j < p \<Longrightarrow> partial_dot da db m p (Suc k) (i * p + j) =
     partial_dot da db m p k (i * p + j) + da ! (i * m + k) * db ! (k * p + j)"
  by (simp add: partial_dot_def)

lemma product_buf_partial_dot:
  "product_buf da db n m p = map (partial_dot da db m p m) [0..<n * p]"
  by (simp add: product_buf_def dot_def partial_dot_def)

lemma accumulated_complete:
  assumes "accumulated da db n m p K buf" and "\<And>idx. idx < n * p \<Longrightarrow> K idx = m"
  shows "buf = product_buf da db n m p"
  using assms
  by (auto simp: accumulated_def product_buf_partial_dot intro!: nth_equalityI)

lemma accumulated_zero:
  assumes "\<And>idx. idx < n * p \<Longrightarrow> K idx = 0"
  shows "accumulated da db n m p K (replicate (n * p) 0)"
  using assms by (simp add: accumulated_def partial_dot_def)

lemma accumulated_cong:
  assumes "accumulated da db n m p K buf" and "\<And>idx. idx < n * p \<Longrightarrow> K idx = K' idx"
  shows "accumulated da db n m p K' buf"
  using assms by (simp add: accumulated_def)

lemma accumulated_update:
  assumes acc: "accumulated da db n m p K buf" and i: "i < n" and j: "j < p"
    and k: "K (i * p + j) = k"
  shows "accumulated da db n m p (K(i * p + j := Suc k))
           (buf[i * p + j := buf ! (i * p + j) + da ! (i * m + k) * db ! (k * p + j)])"
proof -
  have lt: "i * p + j < n * p" using i j by (rule offset_less)
  with acc k have "buf ! (i * p + j) = partial_dot da db m p k (i * p + j)"
    by (simp add: accumulated_def)
  then have "buf ! (i * p + j) + da ! (i * m + k) * db ! (k * p + j) =
      partial_dot da db m p (Suc k) (i * p + j)"
    using j by (simp add: partial_dot_Suc)
  with acc lt show ?thesis
    by (auto simp: accumulated_def nth_list_update)
qed

text \<open>One multiply-accumulate of the vector-simulated kernel on element \<open>(i, j)\<close>.\<close>

lemma mac_cell:
  fixes a b c :: Matrix
  defines "n \<equiv> unat (rows a)" and "m \<equiv> unat (cols a)" and "p \<equiv> unat (cols b)"
  assumes wfb: "wf_matrix b" "data b = Some db" "rows b = cols a"
    and c: "rows c = rows a" "cols c = cols b" "data c = Some buf" "n * p < 2 ^ 64"
    and acc: "accumulated da db n m p K buf"
    and i: "i < n" and k: "k < m" and j: "j < p" and K: "K (i * p + j) = k"
  shows "\<exists>buf'. bindR (MATRIX_GET c (of_nat i) (of_nat j)) (\<lambda>cv.
                 bindR (MATRIX_GET b (of_nat k) (of_nat j)) (\<lambda>bv.
                 MATRIX_SET c (of_nat i) (of_nat j) (cv + da ! (i * m + k) * bv)))
               = Inr (c\<lparr>data := Some buf'\<rparr>)
           \<and> accumulated da db n m p (K(i * p + j := Suc k)) buf'"
proof -
  have idx: "unat (of_nat i * cols c + of_nat j :: size_t) = i * p + j"
    unfolding c(2) p_def
  proof (rule idx_unat)
    show "i < unat (rows a)" using i by (simp add: n_def)
    show "j < unat (cols b)" using j by (simp add: p_def)
    show "unat (rows a) * unat (cols b) < 2 ^ 64" using c(4) by (simp add: n_def p_def)
  qed
  have lt: "i * p + j < length buf"
    using acc i j by (simp add: accumulated_def offset_less)
  have getc: "MATRIX_GET c (of_nat i) (of_nat j) = Inr (buf ! (i * p + j))"
    using idx lt c(3) by (simp add: MATRIX_GET_def)
  have getb: "MATRIX_GET b (of_nat k) (of_nat j) = Inr (db ! (k * p + j))"
    unfolding p_def
    using wfb(1,2)
  proof (rule MATRIX_GET_wf)
    show "k < unat (rows b)" using k wfb(3) by (simp add: m_def)
    show "j < unat (cols b)" using j by (simp add: p_def)
  qed
  have setc: "MATRIX_SET c (of_nat i) (of_nat j) v = Inr (c\<lparr>data := Some (buf[i * p + j := v])\<rparr>)" for v
    using idx lt c(3) by (simp add: MATRIX_SET_def)
  from acc i j K
  have "accumulated da db n m p (K(i * p + j := Suc k))
           (buf[i * p + j := buf ! (i * p + j) + da ! (i * m + k) * db ! (k * p + j)])"
    by (rule accumulated_update)
  then show ?thesis
    using getc getb setc by auto
qed

lemma vector_progress_step:
  "j < p \<Longrightarrow> (vector_progress m p i k j)(i * p + j := Suc k) = vector_progress m p i k (Suc j)"
  by (auto simp: vector_progress_def fun_eq_iff)

lemma vector_progress_at: "j < p \<Longrightarrow> vector_progress m p i k j (i * p + j) = k"
  by (simp add: vector_progress_def)

lemma vector_progress_row_end: "vector_progress m p i k p = vector_progress m p i (Suc k) 0"
  by (auto simp: vector_progress_def fun_eq_iff)

lemma vector_progress_next_row: "vector_progress m p i m 0 = vector_progress m p (Suc i) 0 0"
  by (auto simp: vector_progress_def fun_eq_iff)

text \<open>The scalar loop over the columns \<open>[j0, j1)\<close> of row \<open>i\<close>, for one \<open>k\<close>.\<close>

lemma vector_columns:
  fixes a b c :: Matrix
  defines "n \<equiv> unat (rows a)" and "m \<equiv> unat (cols a)" and "p \<equiv> unat (cols b)"
  assumes wfb: "wf_matrix b" "data b = Some db" "rows b = cols a"
    and c: "rows c = rows a" "cols c = cols b" "n * p < 2 ^ 64"
    and i: "i < n" and k: "k < m"
    and range: "j0 \<le> j1" "unat j1 \<le> p"
    and acc: "accumulated da db n m p (vector_progress m p i k (unat j0)) buf"
  shows "\<exists>buf'. for_loop j0 (\<lambda>j. j < j1) (\<lambda>j. j + 1) (\<lambda>j c3.
                   Some (bindR (MATRIX_GET c3 (of_nat i) j) (\<lambda>cv.
                         bindR (MATRIX_GET b (of_nat k) j) (\<lambda>bv.
                         MATRIX_SET c3 (of_nat i) j (cv + da ! (i * m + k) * bv)))))
                   (c\<lparr>data := Some buf\<rparr>)
               = Some (Inr (c\<lparr>data := Some buf'\<rparr>))
           \<and> accumulated da db n m p (vector_progress m p i k (unat j1)) buf'"
proof -
  let ?body = "\<lambda>j c3.
                   Some (bindR (MATRIX_GET c3 (of_nat i) j) (\<lambda>cv.
                         bindR (MATRIX_GET b (of_nat k) j) (\<lambda>bv.
                         MATRIX_SET c3 (of_nat i) j (cv + da ! (i * m + k) * bv))))"
  let ?P = "\<lambda>j s. \<exists>buf'. s = c\<lparr>data := Some buf'\<rparr>
              \<and> accumulated da db n m p (vector_progress m p i k j) buf'"
  have "\<exists>s'. for_loop j0 (\<lambda>j. j < j1) (\<lambda>j. j + 1) ?body (c\<lparr>data := Some buf\<rparr>) = Some (Inr s')
          \<and> ?P (unat j1) s'"
  proof (rule for_loop_upto [where P = ?P])
    show "j0 \<le> j1" by (rule range)
    show "?P (unat j0) (c\<lparr>data := Some buf\<rparr>)" using acc by blast
    fix j s
    assume "unat j0 \<le> j" and j: "j < unat j1" and P: "?P j s"
    then obtain buf1 where s: "s = c\<lparr>data := Some buf1\<rparr>"
      and a1: "accumulated da db n m p (vector_progress m p i k j) buf1" by blast
    from j range(2) have jp: "j < p" by simp
    have "\<exists>buf'. bindR (MATRIX_GET (c\<lparr>data := Some buf1\<rparr>) (of_nat i) (of_nat j)) (\<lambda>cv.
                 bindR (MATRIX_GET b (of_nat k) (of_nat j)) (\<lambda>bv.
                 MATRIX_SET (c\<lparr>data := Some buf1\<rparr>) (of_nat i) (of_nat j) (cv + da ! (i * m + k) * bv)))
               = Inr (c\<lparr>data := Some buf1\<rparr>\<lparr>data := Some buf'\<rparr>)
           \<and> accumulated da db n m p ((vector_progress m p i k j)(i * p + j := Suc k)) buf'"
      unfolding n_def m_def p_def
    proof (rule mac_cell)
      show "wf_matrix b" "data b = Some db" "rows b = cols a" by (rule wfb)+
      show "rows (c\<lparr>data := Some buf1\<rparr>) = rows a" "cols (c\<lparr>data := Some buf1\<rparr>) = cols b"
        using c by simp_all
      show "data (c\<lparr>data := Some buf1\<rparr>) = Some buf1" by simp
      show "unat (rows a) * unat (cols b) < 2 ^ 64" using c(3) by (simp add: n_def p_def)
      show "accumulated da db (unat (rows a)) (unat (cols a)) (unat (cols b))
              (vector_progress (unat (cols a)) (unat (cols b)) i k j) buf1"
        using a1 by (simp add: n_def m_def p_def)
      show "i < unat (rows a)" using i by (simp add: n_def)
      show "k < unat (cols a)" using k by (simp add: m_def)
      show "j < unat (cols b)" using jp by (simp add: p_def)
      show "vector_progress (unat (cols a)) (unat (cols b)) i k j (i * unat (cols b) + j) = k"
        using jp by (simp add: vector_progress_at p_def)
    qed
    then show "\<exists>s'. ?body (of_nat j) s = Some (Inr s') \<and> ?P (Suc j) s'"
      using jp by (auto simp: s vector_progress_step)
  qed
  then show ?thesis by auto
qed

text \<open>The eight lanes of one chunk starting at column \<open>j0\<close>.\<close>

lemma vector_lanes:
  fixes a b c :: Matrix
  defines "n \<equiv> unat (rows a)" and "m \<equiv> unat (cols a)" and "p \<equiv> unat (cols b)"
  assumes wfb: "wf_matrix b" "data b = Some db" "rows b = cols a"
    and c: "rows c = rows a" "cols c = cols b" "n * p < 2 ^ 64"
    and i: "i < n" and k: "k < m"
    and range: "j0 + 8 \<le> p"
    and acc: "accumulated da db n m p (vector_progress m p i k j0) buf"
  shows "\<exists>buf'. for_loop 0 (\<lambda>vj. vj < VECTOR_LENGTH) (\<lambda>vj. vj + 1) (\<lambda>vj c''.
                   Some (bindR (MATRIX_GET c'' (of_nat i) (of_nat j0 + vj)) (\<lambda>cv.
                         bindR (MATRIX_GET b (of_nat k) (of_nat j0 + vj)) (\<lambda>bv.
                         MATRIX_SET c'' (of_nat i) (of_nat j0 + vj) (cv + da ! (i * m + k) * bv)))))
                   (c\<lparr>data := Some buf\<rparr>)
               = Some (Inr (c\<lparr>data := Some buf'\<rparr>))
           \<and> accumulated da db n m p (vector_progress m p i k (j0 + 8)) buf'"
proof -
  let ?body = "\<lambda>vj c''.
                   Some (bindR (MATRIX_GET c'' (of_nat i) (of_nat j0 + vj)) (\<lambda>cv.
                         bindR (MATRIX_GET b (of_nat k) (of_nat j0 + vj)) (\<lambda>bv.
                         MATRIX_SET c'' (of_nat i) (of_nat j0 + vj) (cv + da ! (i * m + k) * bv))))"
  let ?P = "\<lambda>v s. \<exists>buf'. s = c\<lparr>data := Some buf'\<rparr>
              \<and> accumulated da db n m p (vector_progress m p i k (j0 + v)) buf'"
  have "\<exists>s'. for_loop 0 (\<lambda>vj. vj < VECTOR_LENGTH) (\<lambda>vj. vj + 1) ?body (c\<lparr>data := Some buf\<rparr>)
            = Some (Inr s') \<and> ?P (unat VECTOR_LENGTH) s'"
  proof (rule for_loop_upto [where P = ?P])
    show "(0::size_t) \<le> VECTOR_LENGTH" by simp
    show "?P (unat (0::size_t)) (c\<lparr>data := Some buf\<rparr>)"
      using acc by (intro exI [of _ buf]) simp
    fix v s
    assume "unat (0::size_t) \<le> v" and v: "v < unat VECTOR_LENGTH" and P: "?P v s"
    then obtain buf1 where s: "s = c\<lparr>data := Some buf1\<rparr>"
      and a1: "accumulated da db n m p (vector_progress m p i k (j0 + v)) buf1" by blast
    from v range have jp: "j0 + v < p" by (simp add: VECTOR_LENGTH_def)
    have "\<exists>buf'. bindR (MATRIX_GET (c\<lparr>data := Some buf1\<rparr>) (of_nat i) (of_nat (j0 + v))) (\<lambda>cv.
                 bindR (MATRIX_GET b (of_nat k) (of_nat (j0 + v))) (\<lambda>bv.
                 MATRIX_SET (c\<lparr>data := Some buf1\<rparr>) (of_nat i) (of_nat (j0 + v))
                   (cv + da ! (i * m + k) * bv)))
               = Inr (c\<lparr>data := Some buf1\<rparr>\<lparr>data := Some buf'\<rparr>)
           \<and> accumulated da db n m p
               ((vector_progress m p i k (j0 + v))(i * p + (j0 + v) := Suc k)) buf'"
      unfolding n_def m_def p_def
    proof (rule mac_cell)
      show "wf_matrix b" "data b = Some db" "rows b = cols a" by (rule wfb)+
      show "rows (c\<lparr>data := Some buf1\<rparr>) = rows a" "cols (c\<lparr>data := Some buf1\<rparr>) = cols b"
        using c by simp_all
      show "data (c\<lparr>data := Some buf1\<rparr>) = Some buf1" by simp
      show "unat (rows a) * unat (cols b) < 2 ^ 64" using c(3) by (simp add: n_def p_def)
      show "accumulated da db (unat (rows a)) (unat (cols a)) (unat (cols b))
              (vector_progress (unat (cols a)) (unat (cols b)) i k (j0 + v)) buf1"
        using a1 by (simp add: n_def m_def p_def)
      show "i < unat (rows a)" using i by (simp add: n_def)
      show "k < unat (cols a)" using k by (simp add: m_def)
      show "j0 + v < unat (cols b)" using jp by (simp add: p_def)
      show "vector_progress (unat (cols a)) (unat (cols b)) i k (j0 + v)
              (i * unat (cols b) + (j0 + v)) = k"
        using jp by (simp add: vector_progress_at p_def)
    qed
    then show "\<exists>s'. ?body (of_nat v) s = Some (Inr s') \<and> ?P (Suc v) s'"
      using jp by (auto simp: s vector_progress_step)
  qed
  then show ?thesis by (auto simp: VECTOR_LENGTH_def)
qed

text \<open>The chunked loop, for \<open>p \<ge> 8\<close>: it ends at the last multiple of 8 not above \<open>p\<close>.\<close>

lemma vector_chunks:
  fixes a b c :: Matrix
  defines "n \<equiv> unat (rows a)" and "m \<equiv> unat (cols a)" and "p \<equiv> unat (cols b)"
  assumes wfb: "wf_matrix b" "data b = Some db" "rows b = cols a"
    and c: "rows c = rows a" "cols c = cols b" "n * p < 2 ^ 64"
    and i: "i < n" and k: "k < m"
    and wide: "8 \<le> p"
    and acc: "accumulated da db n m p (vector_progress m p i k 0) buf"
  shows "\<exists>j buf'. for_from 0 (\<lambda>j. j \<le> cols b - VECTOR_LENGTH) (\<lambda>j. j + VECTOR_LENGTH) (\<lambda>j.
                   for_loop 0 (\<lambda>vj. vj < VECTOR_LENGTH) (\<lambda>vj. vj + 1) (\<lambda>vj c''.
                     Some (bindR (MATRIX_GET c'' (of_nat i) (j + vj)) (\<lambda>cv.
                           bindR (MATRIX_GET b (of_nat k) (j + vj)) (\<lambda>bv.
                           MATRIX_SET c'' (of_nat i) (j + vj) (cv + da ! (i * m + k) * bv))))))
                   (c\<lparr>data := Some buf\<rparr>)
               = Some (Inr (j, c\<lparr>data := Some buf'\<rparr>))
           \<and> j \<le> cols b
           \<and> accumulated da db n m p (vector_progress m p i k (unat j)) buf'"
proof -
  let ?lanes = "\<lambda>j. for_loop 0 (\<lambda>vj. vj < VECTOR_LENGTH) (\<lambda>vj. vj + 1) (\<lambda>vj c''.
                     Some (bindR (MATRIX_GET c'' (of_nat i) (j + vj)) (\<lambda>cv.
                           bindR (MATRIX_GET b (of_nat k) (j + vj)) (\<lambda>bv.
                           MATRIX_SET c'' (of_nat i) (j + vj) (cv + da ! (i * m + k) * bv)))))"
  let ?I = "\<lambda>j s. unat j \<le> p \<and> (\<exists>buf'. s = c\<lparr>data := Some buf'\<rparr>
              \<and> accumulated da db n m p (vector_progress m p i k (unat j)) buf')"
  have sub: "unat (cols b - VECTOR_LENGTH) = p - 8"
    using wide by (simp add: VECTOR_LENGTH_def p_def unat_sub word_le_nat_alt)
  have pb: "p < 2 ^ 64" unfolding p_def using unsigned_less [of "cols b"] by simp
  have "\<exists>j s. for_from 0 (\<lambda>j. j \<le> cols b - VECTOR_LENGTH) (\<lambda>j. j + VECTOR_LENGTH) ?lanes
                (c\<lparr>data := Some buf\<rparr>) = Some (Inr (j, s))
          \<and> ?I j s \<and> \<not> j \<le> cols b - VECTOR_LENGTH"
  proof (rule for_from_rule [where I = ?I and f = "\<lambda>j. p - unat j"])
    show "?I 0 (c\<lparr>data := Some buf\<rparr>)"
      using acc by (intro conjI exI [of _ buf]) simp_all
    fix j s
    assume I: "?I j s" and cond: "j \<le> cols b - VECTOR_LENGTH"
    then obtain buf1 where s: "s = c\<lparr>data := Some buf1\<rparr>"
      and a1: "accumulated da db n m p (vector_progress m p i k (unat j)) buf1" by blast
    from cond sub have le: "unat j + 8 \<le> p" using wide by (simp add: word_le_nat_alt)
    with pb have add: "unat (j + VECTOR_LENGTH) = unat j + 8"
      by (simp add: VECTOR_LENGTH_def unat_word_ariths)
    have "\<exists>buf'. for_loop 0 (\<lambda>vj. vj < VECTOR_LENGTH) (\<lambda>vj. vj + 1) (\<lambda>vj c''.
                   Some (bindR (MATRIX_GET c'' (of_nat i) (of_nat (unat j) + vj)) (\<lambda>cv.
                         bindR (MATRIX_GET b (of_nat k) (of_nat (unat j) + vj)) (\<lambda>bv.
                         MATRIX_SET c'' (of_nat i) (of_nat (unat j) + vj) (cv + da ! (i * m + k) * bv)))))
                   (c\<lparr>data := Some buf1\<rparr>)
               = Some (Inr (c\<lparr>data := Some buf'\<rparr>))
           \<and> accumulated da db n m p (vector_progress m p i k (unat j + 8)) buf'"
      unfolding n_def m_def p_def
    proof (rule vector_lanes)
      show "wf_matrix b" "data b = Some db" "rows b = cols a" by (rule wfb)+
      show "rows c = rows a" "cols c = cols b" by (rule c)+
      show "unat (rows a) * unat (cols b) < 2 ^ 64" using c(3) by (simp add: n_def p_def)
      show "i < unat (rows a)" using i by (simp add: n_def)
      show "k < unat (cols a)" using k by (simp add: m_def)
      show "unat j + 8 \<le> unat (cols b)" using le by (simp add: p_def)
      show "accumulated da db (unat (rows a)) (unat (cols a)) (unat (cols b))
              (vector_progress (unat (cols a)) (unat (cols b)) i k (unat j)) buf1"
        using a1 by (simp add: n_def m_def p_def)
    qed
    then show "\<exists>s'. ?lanes j s = Some (Inr s') \<and> ?I (j + VECTOR_LENGTH) s' \<and>
            p - unat (j + VECTOR_LENGTH) < p - unat j"
      using le add by (auto simp: s)
  qed
  then show ?thesis
    by (auto simp: word_le_nat_alt p_def)
qed

text \<open>All columns of row \<open>i\<close> for one \<open>k\<close>: the chunked loop, then the scalar cleanup.\<close>

lemma vector_k_body:
  fixes a b c :: Matrix
  defines "n \<equiv> unat (rows a)" and "m \<equiv> unat (cols a)" and "p \<equiv> unat (cols b)"
  assumes wfa: "wf_matrix a" "data a = Some da"
    and wfb: "wf_matrix b" "data b = Some db" "rows b = cols a"
    and c: "rows c = rows a" "cols c = cols b" "n * p < 2 ^ 64"
    and i: "i < n" and k: "k < m"
    and wide: "8 \<le> p"
    and acc: "accumulated da db n m p (vector_progress m p i k 0) buf"
  shows "\<exists>buf'. bindO (Some (MATRIX_GET a (of_nat i) (of_nat k))) (\<lambda>a_ik.
                 bindO (for_from 0 (\<lambda>j. j \<le> cols b - VECTOR_LENGTH) (\<lambda>j. j + VECTOR_LENGTH) (\<lambda>j.
                          for_loop 0 (\<lambda>vj. vj < VECTOR_LENGTH) (\<lambda>vj. vj + 1) (\<lambda>vj c''.
                            Some (bindR (MATRIX_GET c'' (of_nat i) (j + vj)) (\<lambda>cv.
                                  bindR (MATRIX_GET b (of_nat k) (j + vj)) (\<lambda>bv.
                                  MATRIX_SET c'' (of_nat i) (j + vj) (cv + a_ik * bv))))))
                          (c\<lparr>data := Some buf\<rparr>)) (\<lambda>(j, c'').
                 for_loop j (\<lambda>j. j < cols b) (\<lambda>j. j + 1) (\<lambda>j c3.
                   Some (bindR (MATRIX_GET c3 (of_nat i) j) (\<lambda>cv.
                         bindR (MATRIX_GET b (of_nat k) j) (\<lambda>bv.
                         MATRIX_SET c3 (of_nat i) j (cv + a_ik * bv))))) c''))
               = Some (Inr (c\<lparr>data := Some buf'\<rparr>))
           \<and> accumulated da db n m p (vector_progress m p i (Suc k) 0) buf'"
proof -
  have geta: "MATRIX_GET a (of_nat i) (of_nat k) = Inr (da ! (i * m + k))"
    unfolding m_def using wfa
  proof (rule MATRIX_GET_wf)
    show "i < unat (rows a)" using i by (simp add: n_def)
    show "k < unat (cols a)" using k by (simp add: m_def)
  qed
  from vector_chunks [of b db a c i k da buf, OF wfb c(1,2)] c(3) i k wide acc
  obtain j buf1 where
    chunks: "for_from 0 (\<lambda>j. j \<le> cols b - VECTOR_LENGTH) (\<lambda>j. j + VECTOR_LENGTH) (\<lambda>j.
                   for_loop 0 (\<lambda>vj. vj < VECTOR_LENGTH) (\<lambda>vj. vj + 1) (\<lambda>vj c''.
                     Some (bindR (MATRIX_GET c'' (of_nat i) (j + vj)) (\<lambda>cv.
                           bindR (MATRIX_GET b (of_nat k) (j + vj)) (\<lambda>bv.
                           MATRIX_SET c'' (of_nat i) (j + vj) (cv + da ! (i * m + k) * bv))))))
                   (c\<lparr>data := Some buf\<rparr>)
               = Some (Inr (j, c\<lparr>data := Some buf1\<rparr>))"
    and j: "j \<le> cols b"
    and a1: "accumulated da db n m p (vector_progress m p i k (unat j)) buf1"
    unfolding n_def m_def p_def by blast
  from vector_columns [of b db a c i k j "cols b" da buf1, OF wfb c(1,2)] c(3) i k j a1
  obtain buf2 where
    cleanup: "for_loop j (\<lambda>j. j < cols b) (\<lambda>j. j + 1) (\<lambda>j c3.
                   Some (bindR (MATRIX_GET c3 (of_nat i) j) (\<lambda>cv.
                         bindR (MATRIX_GET b (of_nat k) j) (\<lambda>bv.
                         MATRIX_SET c3 (of_nat i) j (cv + da ! (i * m + k) * bv)))))
                   (c\<lparr>data := Some buf1\<rparr>)
               = Some (Inr (c\<lparr>data := Some buf2\<rparr>))"
    and a2: "accumulated da db n m p (vector_progress m p i k p) buf2"
    unfolding n_def m_def p_def by auto
  from a2 have "accumulated da db n m p (vector_progress m p i (Suc k) 0) buf2"
    by (simp add: vector_progress_row_end)
  with geta chunks cleanup show ?thesis
    by (intro exI [of _ buf2]) simp
qed

lemma vector_k_loop:
  fixes a b c :: Matrix
  defines "n \<equiv> unat (rows a)" and "m \<equiv> unat (cols a)" and "p \<equiv> unat (cols b)"
  assumes wfa: "wf_matrix a" "data a = Some da"
    and wfb: "wf_matrix b" "data b = Some db" "rows b = cols a"
    and c: "rows c = rows a" "cols c = cols b" "n * p < 2 ^ 64"
    and i: "i < n"
    and wide: "8 \<le> p"
    and acc: "accumulated da db n m p (vector_progress m p i 0 0) buf"
  shows "\<exists>buf'. for_loop 0 (\<lambda>k. k < cols a) (\<lambda>k. k + 1) (\<lambda>k c'.
                 bindO (Some (MATRIX_GET a (of_nat i) k)) (\<lambda>a_ik.
                 bindO (for_from 0 (\<lambda>j. j \<le> cols b - VECTOR_LENGTH) (\<lambda>j. j + VECTOR_LENGTH) (\<lambda>j.
                          for_loop 0 (\<lambda>vj. vj < VECTOR_LENGTH) (\<lambda>vj. vj + 1) (\<lambda>vj c''.
                            Some (bindR (MATRIX_GET c'' (of_nat i) (j + vj)) (\<lambda>cv.
                                  bindR (MATRIX_GET b k (j + vj)) (\<lambda>bv.
                                  MATRIX_SET c'' (of_nat i) (j + vj) (cv + a_ik * bv)))))) c') (\<lambda>(j, c'').
                 for_loop j (\<lambda>j. j < cols b) (\<lambda>j. j + 1) (\<lambda>j c3.
                   Some (bindR (MATRIX_GET c3 (of_nat i) j) (\<lambda>cv.
                         bindR (MATRIX_GET b k j) (\<lambda>bv.
                         MATRIX_SET c3 (of_nat i) j (cv + a_ik * bv))))) c'')))
                 (c\<lparr>data := Some buf\<rparr>)
               = Some (Inr (c\<lparr>data := Some buf'\<rparr>))
           \<and> accumulated da db n m p (vector_progress m p (Suc i) 0 0) buf'"
proof -
  let ?body = "\<lambda>k c'.
                 bindO (Some (MATRIX_GET a (of_nat i) k)) (\<lambda>a_ik.
                 bindO (for_from 0 (\<lambda>j. j \<le> cols b - VECTOR_LENGTH) (\<lambda>j. j + VECTOR_LENGTH) (\<lambda>j.
                          for_loop 0 (\<lambda>vj. vj < VECTOR_LENGTH) (\<lambda>vj. vj + 1) (\<lambda>vj c''.
                            Some (bindR (MATRIX_GET c'' (of_nat i) (j + vj)) (\<lambda>cv.
                                  bindR (MATRIX_GET b k (j + vj)) (\<lambda>bv.
                                  MATRIX_SET c'' (of_nat i) (j + vj) (cv + a_ik * bv)))))) c') (\<lambda>(j, c'').
                 for_loop j (\<lambda>j. j < cols b) (\<lambda>j. j + 1) (\<lambda>j c3.
                   Some (bindR (MATRIX_GET c3 (of_nat i) j) (\<lambda>cv.
                         bindR (MATRIX_GET b k j) (\<lambda>bv.
                         MATRIX_SET c3 (of_nat i) j (cv + a_ik * bv))))) c''))"
  let ?P = "\<lambda>k s. \<exists>buf'. s = c\<lparr>data := Some buf'\<rparr>
              \<and> accumulated da db n m p (vector_progress m p i k 0) buf'"
  have "\<exists>s'. for_loop 0 (\<lambda>k. k < cols a) (\<lambda>k. k + 1) ?body (c\<lparr>data := Some buf\<rparr>) = Some (Inr s')
          \<and> ?P (unat (cols a)) s'"
  proof (rule for_loop_upto [where P = ?P])
    show "(0::size_t) \<le> cols a" by simp
    show "?P (unat (0::size_t)) (c\<lparr>data := Some buf\<rparr>)"
      using acc by (intro exI [of _ buf]) simp
    fix k s
    assume "unat (0::size_t) \<le> k" and k: "k < unat (cols a)" and P: "?P k s"
    then obtain buf1 where s: "s = c\<lparr>data := Some buf1\<rparr>"
      and a1: "accumulated da db n m p (vector_progress m p i k 0) buf1" by blast
    from vector_k_body [of a da b db c i k buf1, OF wfa wfb c(1,2)] c(3) i k wide a1
    show "\<exists>s'. ?body (of_nat k) s = Some (Inr s') \<and> ?P (Suc k) s'"
      unfolding n_def m_def p_def s by auto
  qed
  then show ?thesis
    by (auto simp: m_def vector_progress_next_row)
qed

lemma matrix_mult_vector_wide:
  fixes a b c :: Matrix
  defines "n \<equiv> unat (rows a)" and "m \<equiv> unat (cols a)" and "p \<equiv> unat (cols b)"
  assumes wf: "wf_matrix a" "wf_matrix b" "wf_matrix c" and compat: "compatible a b c"
    and d: "data a = Some da" "data b = Some db"
    and wide: "8 \<le> p"
  shows "matrix_mult_vector (Some a) (Some b) (Some c) =
           Some (Inr (Some \<lparr>data = Some (product_buf da db n m p), rows = rows a, cols = cols b\<rparr>))"
proof -
  from compat have dims: "cols a = rows b" "rows c = rows a" "cols c = cols b"
    by (simp_all add: compatible_def)
  from wf(3) dims have np: "n * p < 2 ^ 64" and dc: "data c \<noteq> None"
    by (auto simp: n_def p_def elim!: wf_matrixD)
  define c0 where "c0 = \<lparr>data = Some (replicate (n * p) 0), rows = rows a, cols = cols b\<rparr>"
  have zero: "matrix_init_zero (Some c) = Inr (Some c0)"
    using wf(3) dims by (simp add: matrix_init_zero_wf c0_def n_def p_def)
  have c0: "rows c0 = rows a" "cols c0 = cols b" "c0\<lparr>data := Some x\<rparr> =
      \<lparr>data = Some x, rows = rows a, cols = cols b\<rparr>" for x
    by (simp_all add: c0_def)
  let ?body = "\<lambda>i. for_loop 0 (\<lambda>k. k < cols a) (\<lambda>k. k + 1) (\<lambda>k c'.
                 bindO (Some (MATRIX_GET a i k)) (\<lambda>a_ik.
                 bindO (for_from 0 (\<lambda>j. j \<le> cols b - VECTOR_LENGTH) (\<lambda>j. j + VECTOR_LENGTH) (\<lambda>j.
                          for_loop 0 (\<lambda>vj. vj < VECTOR_LENGTH) (\<lambda>vj. vj + 1) (\<lambda>vj c''.
                            Some (bindR (MATRIX_GET c'' i (j + vj)) (\<lambda>cv.
                                  bindR (MATRIX_GET b k (j + vj)) (\<lambda>bv.
                                  MATRIX_SET c'' i (j + vj) (cv + a_ik * bv)))))) c') (\<lambda>(j, c'').
                 for_loop j (\<lambda>j. j < cols b) (\<lambda>j. j + 1) (\<lambda>j c3.
                   Some (bindR (MATRIX_GET c3 i j) (\<lambda>cv.
                         bindR (MATRIX_GET b k j) (\<lambda>bv.
                         MATRIX_SET c3 i j (cv + a_ik * bv))))) c'')))"
  let ?P = "\<lambda>i s. \<exists>buf'. s = c0\<lparr>data := Some buf'\<rparr>
              \<and> accumulated da db n m p (vector_progress m p i 0 0) buf'"
  have "\<exists>s'. for_loop 0 (\<lambda>i. i < rows a) (\<lambda>i. i + 1) ?body c0 = Some (Inr s')
          \<and> ?P (unat (rows a)) s'"
  proof (rule for_loop_upto [where P = ?P])
    show "(0::size_t) \<le> rows a" by simp
    have "accumulated da db n m p (vector_progress m p 0 0 0) (replicate (n * p) 0)"
      by (rule accumulated_zero) (simp add: vector_progress_def)
    then show "?P (unat (0::size_t)) c0"
      by (intro exI [of _ "replicate (n * p) 0"]) (simp add: c0_def)
    fix i s
    assume "unat (0::size_t) \<le> i" and i: "i < unat (rows a)" and P: "?P i s"
    then obtain buf1 where s: "s = c0\<lparr>data := Some buf1\<rparr>"
      and a1: "accumulated da db n m p (vector_progress m p i 0 0) buf1" by blast
    from vector_k_loop [of a da b db c0 i buf1, OF wf(1) d(1) wf(2) d(2) dims(1) [symmetric] c0(1,2)]
      np i wide a1
    show "\<exists>s'. ?body (of_nat i) s = Some (Inr s') \<and> ?P (Suc i) s'"
      unfolding n_def m_def p_def s by auto
  qed
  then obtain buf' where run: "for_loop 0 (\<lambda>i. i < rows a) (\<lambda>i. i + 1) ?body c0 =
      Some (Inr (c0\<lparr>data := Some buf'\<rparr>))"
    and a: "accumulated da db n m p (vector_progress m p n 0 0) buf'"
    by (auto simp: n_def)
  from a have "buf' = product_buf da db n m p"
    by (rule accumulated_complete) (simp add: vector_progress_def)
  with run have run': "for_loop 0 (\<lambda>i. i < rows a) (\<lambda>i. i + 1) ?body c0 =
      Some (Inr \<lparr>data = Some (product_buf da db n m p), rows = rows a, cols = cols b\<rparr>)"
    by (simp add: c0)
  have nonnull: "(data a = None \<or> data b = None \<or> data c = None) = False"
    using d dc by simp
  have ok: "(cols a \<noteq> rows b \<or> rows a \<noteq> rows c \<or> cols b \<noteq> cols c) = False"
    using dims by simp
  show ?thesis
    unfolding matrix_mult_vector_def
    by (simp only: prod.case option.case nonnull ok if_False zero Let_def bindO_simps run')
qed

section \<open>The tiled kernel on blocks of at least 3 products\<close>

text \<open>
  When the tile size and the inner dimension \<open>m\<close> are at least 3, every block has
  \<open>k_end \<ge> 3\<close> and the bound \<^verbatim>\<open>k_end - 3\<close> does not wrap; if moreover no block bound
  \<^verbatim>\<open>ii + tile_size\<close> wraps, the kernel returns the product.
\<close>

lemma accumulated_set:
  assumes acc: "accumulated da db n m p K buf" and lt: "idx0 < n * p"
  shows "accumulated da db n m p (K(idx0 := k')) (buf[idx0 := partial_dot da db m p k' idx0])"
  using assms by (auto simp: accumulated_def nth_list_update)

lemma accumulate_partial:
  fixes a b :: Matrix
  defines "m \<equiv> unat (cols a)" and "p \<equiv> unat (cols b)"
  assumes "wf_matrix a" "wf_matrix b" "cols a = rows b" "data a = Some da" "data b = Some db"
    "i < unat (rows a)" "t < m" "j < p"
  shows "accumulate a b (of_nat i) (of_nat t) (of_nat j) (partial_dot da db m p t (i * p + j)) =
           Inr (partial_dot da db m p (Suc t) (i * p + j))"
  using accumulate_wf [OF assms(3-8), of t j] assms(9,10)
  by (simp add: partial_dot_Suc m_def p_def)

text \<open>
  The unrolled loop of the tiled kernel, when its bound \<open>k_end - 3\<close> does not wrap: it
  stops at some \<open>k\<close> in \<open>[kk, k_end]\<close> with the products below \<open>k\<close> accumulated.
\<close>

lemma tiled_unrolled:
  fixes a b :: Matrix and kk k_end :: size_t
  defines "m \<equiv> unat (cols a)" and "p \<equiv> unat (cols b)"
  assumes ab: "wf_matrix a" "wf_matrix b" "cols a = rows b" "data a = Some da" "data b = Some db"
    and i: "i < unat (rows a)" and j: "j < p"
    and k: "kk \<le> k_end" "unat k_end \<le> m" "3 \<le> unat k_end"
  shows "\<exists>k1. for_from kk (\<lambda>k. k < k_end - 3) (\<lambda>k. k + 4) (\<lambda>k sum.
                 Some (bindR (accumulate a b (of_nat i) k (of_nat j) sum) (\<lambda>sum.
                       bindR (accumulate a b (of_nat i) (k + 1) (of_nat j) sum) (\<lambda>sum.
                       bindR (accumulate a b (of_nat i) (k + 2) (of_nat j) sum) (\<lambda>sum.
                       accumulate a b (of_nat i) (k + 3) (of_nat j) sum)))))
               (partial_dot da db m p (unat kk) (i * p + j))
             = Some (Inr (k1, partial_dot da db m p (unat k1) (i * p + j)))
           \<and> kk \<le> k1 \<and> k1 \<le> k_end"
proof -
  let ?body = "\<lambda>k sum.
                 Some (bindR (accumulate a b (of_nat i) k (of_nat j) sum) (\<lambda>sum.
                       bindR (accumulate a b (of_nat i) (k + 1) (of_nat j) sum) (\<lambda>sum.
                       bindR (accumulate a b (of_nat i) (k + 2) (of_nat j) sum) (\<lambda>sum.
                       accumulate a b (of_nat i) (k + 3) (of_nat j) sum))))"
  let ?I = "\<lambda>k s. kk \<le> k \<and> k \<le> k_end \<and> s = partial_dot da db m p (unat k) (i * p + j)"
  have sub: "unat (k_end - 3) = unat k_end - 3"
    using k(3) by (simp add: unat_sub word_le_nat_alt)
  have ke: "unat k_end < 2 ^ 64" using unsigned_less [of k_end] by simp
  have "\<exists>k1 s. for_from kk (\<lambda>k. k < k_end - 3) (\<lambda>k. k + 4) ?body
                  (partial_dot da db m p (unat kk) (i * p + j)) = Some (Inr (k1, s))
          \<and> ?I k1 s \<and> \<not> k1 < k_end - 3"
  proof (rule for_from_rule [where I = ?I and f = "\<lambda>k. unat k_end - unat k"])
    show "?I kk (partial_dot da db m p (unat kk) (i * p + j))" using k(1) by simp
    fix x s
    assume I: "?I x s" and cond: "x < k_end - 3"
    define t where "t = unat x"
    from cond sub have lt: "t + 3 < unat k_end" by (simp add: word_less_nat_alt t_def)
    with ke have add: "unat (x + 4) = t + 4" by (simp add: unat_word_ariths t_def)
    have xs: "x = of_nat t" "x + 1 = of_nat (Suc t)" "x + 2 = of_nat (Suc (Suc t))"
      "x + 3 = of_nat (Suc (Suc (Suc t)))"
      by (simp_all add: t_def)
    from lt k(2) have tm: "t < m" "Suc t < m" "Suc (Suc t) < m" "Suc (Suc (Suc t)) < m"
      by simp_all
    from I have s: "s = partial_dot da db m p t (i * p + j)" by (simp add: t_def)
    have a0: "accumulate a b (of_nat i) x (of_nat j) (partial_dot da db m p t (i * p + j)) =
        Inr (partial_dot da db m p (Suc t) (i * p + j))"
      unfolding xs(1) m_def p_def
      by (rule accumulate_partial [OF ab i tm(1) [unfolded m_def] j [unfolded p_def]])
    have a1: "accumulate a b (of_nat i) (x + 1) (of_nat j)
          (partial_dot da db m p (Suc t) (i * p + j)) =
        Inr (partial_dot da db m p (Suc (Suc t)) (i * p + j))"
      unfolding xs(2) m_def p_def
      by (rule accumulate_partial [OF ab i tm(2) [unfolded m_def] j [unfolded p_def]])
    have a2: "accumulate a b (of_nat i) (x + 2) (of_nat j)
          (partial_dot da db m p (Suc (Suc t)) (i * p + j)) =
        Inr (partial_dot da db m p (Suc (Suc (Suc t))) (i * p + j))"
      unfolding xs(3) m_def p_def
      by (rule accumulate_partial [OF ab i tm(3) [unfolded m_def] j [unfolded p_def]])
    have a3: "accumulate a b (of_nat i) (x + 3) (of_nat j)
          (partial_dot da db m p (Suc (Suc (Suc t))) (i * p + j)) =
        Inr (partial_dot da db m p (Suc (Suc (Suc (Suc t)))) (i * p + j))"
      unfolding xs(4) m_def p_def
      by (rule accumulate_partial [OF ab i tm(4) [unfolded m_def] j [unfolded p_def]])
    have t4: "t + 4 = Suc (Suc (Suc (Suc t)))" by simp
    have "?body x s = Some (Inr (partial_dot da db m p (t + 4) (i * p + j)))"
      unfolding s t4 by (simp only: a0 a1 a2 a3 bindR_simps)
    moreover have "kk \<le> x + 4" "x + 4 \<le> k_end"
      using I add lt by (simp_all add: word_le_nat_alt t_def)
    moreover have "unat k_end - unat (x + 4) < unat k_end - unat x"
      using add lt by (simp add: t_def)
    ultimately show "\<exists>s'. ?body x s = Some (Inr s') \<and> ?I (x + 4) s' \<and>
            unat k_end - unat (x + 4) < unat k_end - unat x"
      using add by simp
  qed
  then show ?thesis by blast
qed

text \<open>One element of a block: read, unrolled loop, cleanup loop, store.\<close>

lemma tiled_cell:
  fixes a b c :: Matrix and kk k_end :: size_t
  defines "n \<equiv> unat (rows a)" and "m \<equiv> unat (cols a)" and "p \<equiv> unat (cols b)"
  assumes ab: "wf_matrix a" "wf_matrix b" "cols a = rows b" "data a = Some da" "data b = Some db"
    and c: "rows c = rows a" "cols c = cols b" "n * p < 2 ^ 64"
    and acc: "accumulated da db n m p K buf"
    and i: "i < n" and j: "j < p"
    and k: "kk \<le> k_end" "unat k_end \<le> m" "3 \<le> unat k_end"
    and K: "K (i * p + j) = unat kk"
  shows "\<exists>buf'. bindO (Some (MATRIX_GET (c\<lparr>data := Some buf\<rparr>) (of_nat i) (of_nat j))) (\<lambda>sum0.
                 bindO (for_from kk (\<lambda>k. k < k_end - 3) (\<lambda>k. k + 4) (\<lambda>k sum.
                          Some (bindR (accumulate a b (of_nat i) k (of_nat j) sum) (\<lambda>sum.
                                bindR (accumulate a b (of_nat i) (k + 1) (of_nat j) sum) (\<lambda>sum.
                                bindR (accumulate a b (of_nat i) (k + 2) (of_nat j) sum) (\<lambda>sum.
                                accumulate a b (of_nat i) (k + 3) (of_nat j) sum))))) sum0) (\<lambda>(k, sum1).
                 bindO (for_from k (\<lambda>k. k < k_end) (\<lambda>k. k + 1) (\<lambda>k sum.
                          Some (accumulate a b (of_nat i) k (of_nat j) sum)) sum1) (\<lambda>(k', sum2).
                 Some (MATRIX_SET (c\<lparr>data := Some buf\<rparr>) (of_nat i) (of_nat j) sum2))))
               = Some (Inr (c\<lparr>data := Some buf'\<rparr>))
           \<and> accumulated da db n m p (K(i * p + j := unat k_end)) buf'"
proof -
  let ?idx = "i * p + j"
  have idx: "unat (of_nat i * cols b + of_nat j :: size_t) = ?idx"
    unfolding p_def
  proof (rule idx_unat)
    show "i < unat (rows a)" using i by (simp add: n_def)
    show "j < unat (cols b)" using j by (simp add: p_def)
    show "unat (rows a) * unat (cols b) < 2 ^ 64" using c(3) by (simp add: n_def p_def)
  qed
  have lt: "?idx < n * p" using i j by (rule offset_less)
  with acc have len: "?idx < length buf" by (simp add: accumulated_def)
  from acc lt K have val: "buf ! ?idx = partial_dot da db m p (unat kk) ?idx"
    by (simp add: accumulated_def)
  have get: "MATRIX_GET (c\<lparr>data := Some buf\<rparr>) (of_nat i) (of_nat j) =
      Inr (partial_dot da db m p (unat kk) ?idx)"
    using idx len val c(2) by (simp add: MATRIX_GET_def)
  have set: "MATRIX_SET (c\<lparr>data := Some buf\<rparr>) (of_nat i) (of_nat j) v =
      Inr (c\<lparr>data := Some (buf[?idx := v])\<rparr>)" for v
    using idx len c(2) by (simp add: MATRIX_SET_def)
  from tiled_unrolled [OF ab i [unfolded n_def] j [unfolded p_def] k(1) k(2) [unfolded m_def] k(3)]
  obtain k1 where
    unrolled: "for_from kk (\<lambda>k. k < k_end - 3) (\<lambda>k. k + 4) (\<lambda>k sum.
                 Some (bindR (accumulate a b (of_nat i) k (of_nat j) sum) (\<lambda>sum.
                       bindR (accumulate a b (of_nat i) (k + 1) (of_nat j) sum) (\<lambda>sum.
                       bindR (accumulate a b (of_nat i) (k + 2) (of_nat j) sum) (\<lambda>sum.
                       accumulate a b (of_nat i) (k + 3) (of_nat j) sum)))))
               (partial_dot da db m p (unat kk) ?idx)
             = Some (Inr (k1, partial_dot da db m p (unat k1) ?idx))"
    and k1: "kk \<le> k1" "k1 \<le> k_end"
    unfolding m_def p_def by blast
  let ?P = "\<lambda>t s. s = partial_dot da db m p t ?idx"
  have "\<exists>s'. for_from k1 (\<lambda>k. k < k_end) (\<lambda>k. k + 1) (\<lambda>k sum.
                Some (accumulate a b (of_nat i) k (of_nat j) sum))
              (partial_dot da db m p (unat k1) ?idx) = Some (Inr (k_end, s'))
          \<and> ?P (unat k_end) s'"
  proof (rule for_from_upto [where P = ?P])
    show "k1 \<le> k_end" by (rule k1)
    show "?P (unat k1) (partial_dot da db m p (unat k1) ?idx)" by simp
    fix t s
    assume "unat k1 \<le> t" and t: "t < unat k_end" and P: "?P t s"
    from t k(2) have "t < unat (cols a)" by (simp add: m_def)
    from accumulate_partial [OF ab i [unfolded n_def] this j [unfolded p_def]] P
    show "\<exists>s'. Some (accumulate a b (of_nat i) (of_nat t) (of_nat j) s) = Some (Inr s')
            \<and> ?P (Suc t) s'"
      by (simp add: m_def p_def)
  qed
  then have cleanup: "for_from k1 (\<lambda>k. k < k_end) (\<lambda>k. k + 1) (\<lambda>k sum.
                Some (accumulate a b (of_nat i) k (of_nat j) sum))
              (partial_dot da db m p (unat k1) ?idx) =
          Some (Inr (k_end, partial_dot da db m p (unat k_end) ?idx))"
    by simp
  from acc lt have "accumulated da db n m p (K(?idx := unat k_end))
      (buf[?idx := partial_dot da db m p (unat k_end) ?idx])"
    by (rule accumulated_set)
  moreover have "bindO (Some (MATRIX_GET (c\<lparr>data := Some buf\<rparr>) (of_nat i) (of_nat j))) (\<lambda>sum0.
                 bindO (for_from kk (\<lambda>k. k < k_end - 3) (\<lambda>k. k + 4) (\<lambda>k sum.
                          Some (bindR (accumulate a b (of_nat i) k (of_nat j) sum) (\<lambda>sum.
                                bindR (accumulate a b (of_nat i) (k + 1) (of_nat j) sum) (\<lambda>sum.
                                bindR (accumulate a b (of_nat i) (k + 2) (of_nat j) sum) (\<lambda>sum.
                                accumulate a b (of_nat i) (k + 3) (of_nat j) sum))))) sum0) (\<lambda>(k, sum1).
                 bindO (for_from k (\<lambda>k. k < k_end) (\<lambda>k. k + 1) (\<lambda>k sum.
                          Some (accumulate a b (of_nat i) k (of_nat j) sum)) sum1) (\<lambda>(k', sum2).
                 Some (MATRIX_SET (c\<lparr>data := Some buf\<rparr>) (of_nat i) (of_nat j) sum2))))
               = Some (Inr (c\<lparr>data := Some (buf[?idx := partial_dot da db m p (unat k_end) ?idx])\<rparr>))"
    by (simp only: get bindO_simps unrolled cleanup prod.case set)
  ultimately show ?thesis by blast
qed

lemma offset_eq_iff: "j < p \<Longrightarrow> (idx = i * p + j) = (idx div p = i \<and> idx mod p = (j::nat))"
  by (metis div_mod_offset div_mult_mod_eq)

lemma tiled_progress_at:
  "ii \<le> i \<Longrightarrow> i < ie \<Longrightarrow> jj \<le> j \<Longrightarrow> j < je \<Longrightarrow> je \<le> p \<Longrightarrow>
     tiled_progress m p ii ie jj je kk ke i j (i * p + j) = kk"
  by (simp add: tiled_progress_def)

lemma tiled_progress_step:
  "ii \<le> i \<Longrightarrow> i < ie \<Longrightarrow> jj \<le> j \<Longrightarrow> j < je \<Longrightarrow> je \<le> p \<Longrightarrow>
     (tiled_progress m p ii ie jj je kk ke i j)(i * p + j := ke) =
       tiled_progress m p ii ie jj je kk ke i (Suc j)"
  by (rule ext) (auto simp: tiled_progress_def Let_def offset_eq_iff less_Suc_eq)

lemma tiled_progress_row_end:
  "jj \<le> je \<Longrightarrow> tiled_progress m p ii ie jj je kk ke i je =
     tiled_progress m p ii ie jj je kk ke (Suc i) jj"
  by (rule ext) (auto simp: tiled_progress_def Let_def less_Suc_eq)

lemma tiled_progress_block_end:
  "ii \<le> ie \<Longrightarrow> tiled_progress m p ii ie jj je kk ke ie jj =
     tiled_progress m p ii ie jj je ke x ii jj"
  by (rule ext) (auto simp: tiled_progress_def Let_def)

lemma tiled_progress_block_start:
  "tiled_progress m p ii ie jj je kk x ii jj = tiled_progress m p ii ie jj je kk y ii jj"
  by (rule ext) (auto simp: tiled_progress_def Let_def)

lemma tiled_progress_k_done:
  "jj \<le> je \<Longrightarrow> tiled_progress m p ii ie jj je m x ii jj =
     tiled_progress m p ii ie je je 0 y ii je"
  by (rule ext) (auto simp: tiled_progress_def Let_def)

lemma tiled_progress_k_start:
  "tiled_progress m p ii ie jj jj 0 x ii jj = tiled_progress m p ii ie jj je 0 y ii jj"
  by (rule ext) (auto simp: tiled_progress_def Let_def)

lemma tiled_progress_j_done:
  "ii \<le> ie \<Longrightarrow> idx < n * p \<Longrightarrow>
     tiled_progress m p ii ie p p 0 x ii p idx = tiled_progress m p ie ie 0 0 0 y ie 0 idx"
  by (cases "p = 0") (auto simp: tiled_progress_def Let_def)

lemma tiled_progress_j_start:
  "tiled_progress m p ii ii 0 0 0 x ii 0 = tiled_progress m p ii ie 0 0 0 y ii 0"
  by (rule ext) (auto simp: tiled_progress_def Let_def)

lemma tiled_progress_init: "tiled_progress m p 0 0 0 0 0 x 0 0 idx = 0"
  by (simp add: tiled_progress_def)

lemma tiled_progress_final: "idx < n * p \<Longrightarrow> tiled_progress m p n n 0 0 0 x n 0 idx = m"
  by (simp add: tiled_progress_def less_mult_imp_div_less)

lemma block_end:
  fixes x t n :: size_t
  assumes "unat x < unat n" and "unat n + unat t < 2 ^ 64"
  shows "unat (if x + t < n then x + t else n) = min (unat x + unat t) (unat n)"
    and "x \<le> (if x + t < n then x + t else n)"
proof -
  from assms have add: "unat (x + t) = unat x + unat t"
    by (simp add: unat_word_ariths)
  then show "unat (if x + t < n then x + t else n) = min (unat x + unat t) (unat n)"
    by (simp add: word_less_nat_alt)
  from add assms(1) show "x \<le> (if x + t < n then x + t else n)"
    by (simp add: word_le_nat_alt)
qed

text \<open>Row \<open>i\<close> of a block.\<close>

lemma tiled_row:
  fixes a b c :: Matrix and jj j_end kk k_end :: size_t
  defines "n \<equiv> unat (rows a)" and "m \<equiv> unat (cols a)" and "p \<equiv> unat (cols b)"
  assumes ab: "wf_matrix a" "wf_matrix b" "cols a = rows b" "data a = Some da" "data b = Some db"
    and c: "rows c = rows a" "cols c = cols b" "n * p < 2 ^ 64"
    and i: "ii \<le> i" "i < ie" "ie \<le> n"
    and j: "jj \<le> j_end" "unat j_end \<le> p"
    and k: "kk \<le> k_end" "unat k_end \<le> m" "3 \<le> unat k_end"
    and acc: "accumulated da db n m p
                (tiled_progress m p ii ie (unat jj) (unat j_end) (unat kk) (unat k_end) i (unat jj)) buf"
  shows "\<exists>buf'. for_loop jj (\<lambda>j. j < j_end) (\<lambda>j. j + 1) (\<lambda>j c'.
                 bindO (Some (MATRIX_GET c' (of_nat i) j)) (\<lambda>sum0.
                 bindO (for_from kk (\<lambda>k. k < k_end - 3) (\<lambda>k. k + 4) (\<lambda>k sum.
                          Some (bindR (accumulate a b (of_nat i) k j sum) (\<lambda>sum.
                                bindR (accumulate a b (of_nat i) (k + 1) j sum) (\<lambda>sum.
                                bindR (accumulate a b (of_nat i) (k + 2) j sum) (\<lambda>sum.
                                accumulate a b (of_nat i) (k + 3) j sum))))) sum0) (\<lambda>(k, sum1).
                 bindO (for_from k (\<lambda>k. k < k_end) (\<lambda>k. k + 1) (\<lambda>k sum.
                          Some (accumulate a b (of_nat i) k j sum)) sum1) (\<lambda>(k', sum2).
                 Some (MATRIX_SET c' (of_nat i) j sum2)))))
               (c\<lparr>data := Some buf\<rparr>)
             = Some (Inr (c\<lparr>data := Some buf'\<rparr>))
           \<and> accumulated da db n m p
                (tiled_progress m p ii ie (unat jj) (unat j_end) (unat kk) (unat k_end) (Suc i) (unat jj)) buf'"
proof -
  let ?cell = "\<lambda>j c'.
                 bindO (Some (MATRIX_GET c' (of_nat i) j)) (\<lambda>sum0.
                 bindO (for_from kk (\<lambda>k. k < k_end - 3) (\<lambda>k. k + 4) (\<lambda>k sum.
                          Some (bindR (accumulate a b (of_nat i) k j sum) (\<lambda>sum.
                                bindR (accumulate a b (of_nat i) (k + 1) j sum) (\<lambda>sum.
                                bindR (accumulate a b (of_nat i) (k + 2) j sum) (\<lambda>sum.
                                accumulate a b (of_nat i) (k + 3) j sum))))) sum0) (\<lambda>(k, sum1).
                 bindO (for_from k (\<lambda>k. k < k_end) (\<lambda>k. k + 1) (\<lambda>k sum.
                          Some (accumulate a b (of_nat i) k j sum)) sum1) (\<lambda>(k', sum2).
                 Some (MATRIX_SET c' (of_nat i) j sum2))))"
  let ?K = "tiled_progress m p ii ie (unat jj) (unat j_end) (unat kk) (unat k_end) i"
  let ?P = "\<lambda>j s. \<exists>buf'. s = c\<lparr>data := Some buf'\<rparr> \<and> accumulated da db n m p (?K j) buf'"
  have "\<exists>s'. for_loop jj (\<lambda>j. j < j_end) (\<lambda>j. j + 1) ?cell (c\<lparr>data := Some buf\<rparr>) = Some (Inr s')
          \<and> ?P (unat j_end) s'"
  proof (rule for_loop_upto [where P = ?P])
    show "jj \<le> j_end" by (rule j)
    show "?P (unat jj) (c\<lparr>data := Some buf\<rparr>)" using acc by blast
    fix j' s
    assume lo: "unat jj \<le> j'" and hi: "j' < unat j_end" and P: "?P j' s"
    then obtain buf1 where s: "s = c\<lparr>data := Some buf1\<rparr>"
      and a1: "accumulated da db n m p (?K j') buf1" by blast
    from i have "i < n" by simp
    moreover from hi j(2) have "j' < p" by simp
    moreover have "?K j' (i * p + j') = unat kk"
      using i lo hi j(2) by (simp add: tiled_progress_at)
    ultimately have "\<exists>buf'. ?cell (of_nat j') (c\<lparr>data := Some buf1\<rparr>) = Some (Inr (c\<lparr>data := Some buf'\<rparr>))
           \<and> accumulated da db n m p ((?K j')(i * p + j' := unat k_end)) buf'"
      using tiled_cell [OF ab c(1,2) c(3) [unfolded n_def p_def] a1 [unfolded n_def m_def p_def],
          of i j' kk k_end] k
      unfolding n_def m_def p_def by blast
    moreover have "(?K j')(i * p + j' := unat k_end) = ?K (Suc j')"
      using i lo hi j(2) by (simp add: tiled_progress_step)
    ultimately show "\<exists>s'. ?cell (of_nat j') s = Some (Inr s') \<and> ?P (Suc j') s'"
      by (auto simp: s)
  qed
  moreover have "?K (unat j_end) =
      tiled_progress m p ii ie (unat jj) (unat j_end) (unat kk) (unat k_end) (Suc i) (unat jj)"
    using j(1) by (simp add: tiled_progress_row_end word_le_nat_alt)
  ultimately show ?thesis by auto
qed

text \<open>One block: rows \<open>[ii, i_end)\<close>, columns \<open>[jj, j_end)\<close>, products \<open>[kk, k_end)\<close>.\<close>

lemma tiled_block:
  fixes a b c :: Matrix and ii i_end jj j_end kk k_end :: size_t
  defines "n \<equiv> unat (rows a)" and "m \<equiv> unat (cols a)" and "p \<equiv> unat (cols b)"
  assumes ab: "wf_matrix a" "wf_matrix b" "cols a = rows b" "data a = Some da" "data b = Some db"
    and c: "rows c = rows a" "cols c = cols b" "n * p < 2 ^ 64"
    and i: "ii \<le> i_end" "unat i_end \<le> n"
    and j: "jj \<le> j_end" "unat j_end \<le> p"
    and k: "kk \<le> k_end" "unat k_end \<le> m" "3 \<le> unat k_end"
    and acc: "accumulated da db n m p
                (tiled_progress m p (unat ii) (unat i_end) (unat jj) (unat j_end) (unat kk) (unat k_end)
                   (unat ii) (unat jj)) buf"
  shows "\<exists>buf'. for_loop ii (\<lambda>i. i < i_end) (\<lambda>i. i + 1) (\<lambda>i.
                 for_loop jj (\<lambda>j. j < j_end) (\<lambda>j. j + 1) (\<lambda>j c'.
                   bindO (Some (MATRIX_GET c' i j)) (\<lambda>sum0.
                   bindO (for_from kk (\<lambda>k. k < k_end - 3) (\<lambda>k. k + 4) (\<lambda>k sum.
                            Some (bindR (accumulate a b i k j sum) (\<lambda>sum.
                                  bindR (accumulate a b i (k + 1) j sum) (\<lambda>sum.
                                  bindR (accumulate a b i (k + 2) j sum) (\<lambda>sum.
                                  accumulate a b i (k + 3) j sum))))) sum0) (\<lambda>(k, sum1).
                   bindO (for_from k (\<lambda>k. k < k_end) (\<lambda>k. k + 1) (\<lambda>k sum.
                            Some (accumulate a b i k j sum)) sum1) (\<lambda>(k', sum2).
                   Some (MATRIX_SET c' i j sum2))))))
               (c\<lparr>data := Some buf\<rparr>)
             = Some (Inr (c\<lparr>data := Some buf'\<rparr>))
           \<and> accumulated da db n m p
                (tiled_progress m p (unat ii) (unat i_end) (unat jj) (unat j_end) (unat kk) (unat k_end)
                   (unat i_end) (unat jj)) buf'"
proof -
  let ?row = "\<lambda>i. for_loop jj (\<lambda>j. j < j_end) (\<lambda>j. j + 1) (\<lambda>j c'.
                   bindO (Some (MATRIX_GET c' i j)) (\<lambda>sum0.
                   bindO (for_from kk (\<lambda>k. k < k_end - 3) (\<lambda>k. k + 4) (\<lambda>k sum.
                            Some (bindR (accumulate a b i k j sum) (\<lambda>sum.
                                  bindR (accumulate a b i (k + 1) j sum) (\<lambda>sum.
                                  bindR (accumulate a b i (k + 2) j sum) (\<lambda>sum.
                                  accumulate a b i (k + 3) j sum))))) sum0) (\<lambda>(k, sum1).
                   bindO (for_from k (\<lambda>k. k < k_end) (\<lambda>k. k + 1) (\<lambda>k sum.
                            Some (accumulate a b i k j sum)) sum1) (\<lambda>(k', sum2).
                   Some (MATRIX_SET c' i j sum2)))))"
  let ?K = "\<lambda>i. tiled_progress m p (unat ii) (unat i_end) (unat jj) (unat j_end) (unat kk) (unat k_end)
                   i (unat jj)"
  let ?P = "\<lambda>i s. \<exists>buf'. s = c\<lparr>data := Some buf'\<rparr> \<and> accumulated da db n m p (?K i) buf'"
  have "\<exists>s'. for_loop ii (\<lambda>i. i < i_end) (\<lambda>i. i + 1) ?row (c\<lparr>data := Some buf\<rparr>) = Some (Inr s')
          \<and> ?P (unat i_end) s'"
  proof (rule for_loop_upto [where P = ?P])
    show "ii \<le> i_end" by (rule i)
    show "?P (unat ii) (c\<lparr>data := Some buf\<rparr>)" using acc by blast
    fix i' s
    assume lo: "unat ii \<le> i'" and hi: "i' < unat i_end" and P: "?P i' s"
    then obtain buf1 where s: "s = c\<lparr>data := Some buf1\<rparr>"
      and a1: "accumulated da db n m p (?K i') buf1" by blast
    from tiled_row [OF ab c(1,2) c(3) [unfolded n_def p_def] lo hi i(2) [unfolded n_def] j(1)
        j(2) [unfolded p_def] k(1) k(2) [unfolded m_def] k(3) a1 [unfolded n_def m_def p_def]]
    show "\<exists>s'. ?row (of_nat i') s = Some (Inr s') \<and> ?P (Suc i') s'"
      unfolding n_def m_def p_def s by auto
  qed
  then show ?thesis by auto
qed

text \<open>All \<open>k\<close>-blocks of one block of rows and columns.\<close>

lemma tiled_kk_loop:
  fixes a b c :: Matrix and ii jj tile_size :: size_t
  defines "n \<equiv> unat (rows a)" and "m \<equiv> unat (cols a)" and "p \<equiv> unat (cols b)"
  defines "ie \<equiv> min (unat ii + unat tile_size) n" and "je \<equiv> min (unat jj + unat tile_size) p"
  assumes ab: "wf_matrix a" "wf_matrix b" "cols a = rows b" "data a = Some da" "data b = Some db"
    and c: "rows c = rows a" "cols c = cols b" "n * p < 2 ^ 64"
    and tile: "3 \<le> unat tile_size" "3 \<le> m"
    and nowrap: "n + unat tile_size < 2 ^ 64" "p + unat tile_size < 2 ^ 64"
      "m + unat tile_size < 2 ^ 64"
    and pos: "unat ii < n" "unat jj < p"
    and acc: "accumulated da db n m p
                (tiled_progress m p (unat ii) ie (unat jj) je 0 0 (unat ii) (unat jj)) buf"
  shows "\<exists>buf'. for_loop 0 (\<lambda>kk. kk < cols a) (\<lambda>kk. kk + tile_size) (\<lambda>kk.
                 let i_end = (if ii + tile_size < rows a then ii + tile_size else rows a);
                     j_end = (if jj + tile_size < cols b then jj + tile_size else cols b);
                     k_end = (if kk + tile_size < cols a then kk + tile_size else cols a)
                 in
                 for_loop ii (\<lambda>i. i < i_end) (\<lambda>i. i + 1) (\<lambda>i.
                 for_loop jj (\<lambda>j. j < j_end) (\<lambda>j. j + 1) (\<lambda>j c'.
                   bindO (Some (MATRIX_GET c' i j)) (\<lambda>sum0.
                   bindO (for_from kk (\<lambda>k. k < k_end - 3) (\<lambda>k. k + 4) (\<lambda>k sum.
                            Some (bindR (accumulate a b i k j sum) (\<lambda>sum.
                                  bindR (accumulate a b i (k + 1) j sum) (\<lambda>sum.
                                  bindR (accumulate a b i (k + 2) j sum) (\<lambda>sum.
                                  accumulate a b i (k + 3) j sum))))) sum0) (\<lambda>(k, sum1).
                   bindO (for_from k (\<lambda>k. k < k_end) (\<lambda>k. k + 1) (\<lambda>k sum.
                            Some (accumulate a b i k j sum)) sum1) (\<lambda>(k', sum2).
                   Some (MATRIX_SET c' i j sum2)))))))
               (c\<lparr>data := Some buf\<rparr>)
             = Some (Inr (c\<lparr>data := Some buf'\<rparr>))
           \<and> accumulated da db n m p
                (tiled_progress m p (unat ii) ie (unat jj) je m 0 (unat ii) (unat jj)) buf'"
proof -
  define i_end where "i_end = (if ii + tile_size < rows a then ii + tile_size else rows a)"
  define j_end where "j_end = (if jj + tile_size < cols b then jj + tile_size else cols b)"
  let ?block = "\<lambda>kk k_end.
                 for_loop ii (\<lambda>i. i < i_end) (\<lambda>i. i + 1) (\<lambda>i.
                 for_loop jj (\<lambda>j. j < j_end) (\<lambda>j. j + 1) (\<lambda>j c'.
                   bindO (Some (MATRIX_GET c' i j)) (\<lambda>sum0.
                   bindO (for_from kk (\<lambda>k. k < k_end - 3) (\<lambda>k. k + 4) (\<lambda>k sum.
                            Some (bindR (accumulate a b i k j sum) (\<lambda>sum.
                                  bindR (accumulate a b i (k + 1) j sum) (\<lambda>sum.
                                  bindR (accumulate a b i (k + 2) j sum) (\<lambda>sum.
                                  accumulate a b i (k + 3) j sum))))) sum0) (\<lambda>(k, sum1).
                   bindO (for_from k (\<lambda>k. k < k_end) (\<lambda>k. k + 1) (\<lambda>k sum.
                            Some (accumulate a b i k j sum)) sum1) (\<lambda>(k', sum2).
                   Some (MATRIX_SET c' i j sum2))))))"
  let ?body = "\<lambda>kk. ?block kk (if kk + tile_size < cols a then kk + tile_size else cols a)"
  have ie: "unat i_end = ie" "ii \<le> i_end"
    unfolding i_end_def ie_def n_def
    using block_end [of ii "rows a" tile_size] pos(1) nowrap(1) by (simp_all add: n_def)
  have je: "unat j_end = je" "jj \<le> j_end"
    unfolding j_end_def je_def p_def
    using block_end [of jj "cols b" tile_size] pos(2) nowrap(2) by (simp_all add: p_def)
  let ?K = "\<lambda>kk. tiled_progress m p (unat ii) ie (unat jj) je kk 0 (unat ii) (unat jj)"
  let ?P = "\<lambda>q s. \<exists>buf'. s = c\<lparr>data := Some buf'\<rparr>
              \<and> accumulated da db n m p (?K (min (q * unat tile_size) m)) buf'"
  have "\<exists>q s'. for_loop 0 (\<lambda>kk. kk < cols a) (\<lambda>kk. kk + tile_size) ?body (c\<lparr>data := Some buf\<rparr>)
            = Some (Inr s') \<and> ?P q s'
          \<and> unat (cols a) \<le> q * unat tile_size \<and> (\<forall>q'<q. q' * unat tile_size < unat (cols a))"
  proof (rule for_loop_stride [where P = ?P])
    show "0 < unat tile_size" using tile(1) by simp
    show "unat (cols a) + unat tile_size < 2 ^ 64" using nowrap(3) by (simp add: m_def)
    show "?P 0 (c\<lparr>data := Some buf\<rparr>)"
      using acc by (intro exI [of _ buf]) simp
    fix q s
    assume q: "q * unat tile_size < unat (cols a)" and P: "?P q s"
    then obtain buf1 where s: "s = c\<lparr>data := Some buf1\<rparr>"
      and a1: "accumulated da db n m p (?K (q * unat tile_size)) buf1"
      by (auto simp: m_def)
    define kk :: size_t where "kk = of_nat (q * unat tile_size)"
    define k_end where "k_end = (if kk + tile_size < cols a then kk + tile_size else cols a)"
    have "unat (cols a) < 2 ^ 64" using unsigned_less [of "cols a"] by simp
    with q have "q * unat tile_size < 2 ^ LENGTH(64)" by simp
    with kk_def [symmetric] have kk: "unat kk = q * unat tile_size"
      by (rule of_nat_inverse)
    with q have lt: "unat kk < unat (cols a)" by simp
    have ke: "unat k_end = min (unat kk + unat tile_size) m" "kk \<le> k_end"
      unfolding k_end_def m_def
      using block_end [of kk "cols a" tile_size] lt nowrap(3) by (simp_all add: m_def)
    from ke(1) tile have ke3: "3 \<le> unat k_end" "unat k_end \<le> m" by simp_all
    have start: "accumulated da db (unat (rows a)) (unat (cols a)) (unat (cols b))
        (tiled_progress (unat (cols a)) (unat (cols b)) (unat ii) (unat i_end) (unat jj) (unat j_end)
           (unat kk) (unat k_end) (unat ii) (unat jj)) buf1"
      using a1 tiled_progress_block_start [of m p "unat ii" ie "unat jj" je "unat kk" 0 "unat k_end"]
      by (simp add: ie je kk n_def [symmetric] m_def [symmetric] p_def [symmetric])
    from tiled_block [OF ab c(1,2) c(3) [unfolded n_def p_def] ie(2) _ je(2) _ ke(2) _ ke3(1) start]
      ie(1) je(1) ke3(2)
    obtain buf2 where run: "?block kk k_end (c\<lparr>data := Some buf1\<rparr>) = Some (Inr (c\<lparr>data := Some buf2\<rparr>))"
      and a2: "accumulated da db n m p
                (tiled_progress m p (unat ii) ie (unat jj) je (unat kk) (unat k_end) ie (unat jj)) buf2"
      unfolding n_def m_def p_def ie_def je_def by auto
    have "unat ii \<le> ie" using pos(1) by (simp add: ie_def)
    then have "tiled_progress m p (unat ii) ie (unat jj) je (unat kk) (unat k_end) ie (unat jj) =
        ?K (unat k_end)"
      by (rule tiled_progress_block_end)
    moreover have "unat k_end = min (Suc q * unat tile_size) m"
      using ke(1) kk by (simp add: add.commute)
    ultimately have "?P (Suc q) (c\<lparr>data := Some buf2\<rparr>)"
      using a2 by (intro exI [of _ buf2]) simp
    with run show "\<exists>s'. ?body (of_nat (q * unat tile_size)) s = Some (Inr s') \<and> ?P (Suc q) s'"
      unfolding s kk_def k_end_def by blast
  qed
  then obtain q buf' where
    run: "for_loop 0 (\<lambda>kk. kk < cols a) (\<lambda>kk. kk + tile_size) ?body (c\<lparr>data := Some buf\<rparr>)
            = Some (Inr (c\<lparr>data := Some buf'\<rparr>))"
    and a: "accumulated da db n m p (?K (min (q * unat tile_size) m)) buf'"
    and q: "unat (cols a) \<le> q * unat tile_size"
    by blast
  from q have "min (q * unat tile_size) m = m" by (simp add: m_def)
  with a run show ?thesis
    unfolding Let_def i_end_def j_end_def by auto
qed

text \<open>All blocks of columns of one block of rows.\<close>

lemma tiled_jj_loop:
  fixes a b c :: Matrix and ii tile_size :: size_t
  defines "n \<equiv> unat (rows a)" and "m \<equiv> unat (cols a)" and "p \<equiv> unat (cols b)"
  defines "ie \<equiv> min (unat ii + unat tile_size) n"
  assumes ab: "wf_matrix a" "wf_matrix b" "cols a = rows b" "data a = Some da" "data b = Some db"
    and c: "rows c = rows a" "cols c = cols b" "n * p < 2 ^ 64"
    and tile: "3 \<le> unat tile_size" "3 \<le> m"
    and nowrap: "n + unat tile_size < 2 ^ 64" "p + unat tile_size < 2 ^ 64"
      "m + unat tile_size < 2 ^ 64"
    and pos: "unat ii < n"
    and acc: "accumulated da db n m p (tiled_progress m p (unat ii) ie 0 0 0 0 (unat ii) 0) buf"
  shows "\<exists>buf'. for_loop 0 (\<lambda>jj. jj < cols b) (\<lambda>jj. jj + tile_size) (\<lambda>jj.
                 for_loop 0 (\<lambda>kk. kk < cols a) (\<lambda>kk. kk + tile_size) (\<lambda>kk.
                 let i_end = (if ii + tile_size < rows a then ii + tile_size else rows a);
                     j_end = (if jj + tile_size < cols b then jj + tile_size else cols b);
                     k_end = (if kk + tile_size < cols a then kk + tile_size else cols a)
                 in
                 for_loop ii (\<lambda>i. i < i_end) (\<lambda>i. i + 1) (\<lambda>i.
                 for_loop jj (\<lambda>j. j < j_end) (\<lambda>j. j + 1) (\<lambda>j c'.
                   bindO (Some (MATRIX_GET c' i j)) (\<lambda>sum0.
                   bindO (for_from kk (\<lambda>k. k < k_end - 3) (\<lambda>k. k + 4) (\<lambda>k sum.
                            Some (bindR (accumulate a b i k j sum) (\<lambda>sum.
                                  bindR (accumulate a b i (k + 1) j sum) (\<lambda>sum.
                                  bindR (accumulate a b i (k + 2) j sum) (\<lambda>sum.
                                  accumulate a b i (k + 3) j sum))))) sum0) (\<lambda>(k, sum1).
                   bindO (for_from k (\<lambda>k. k < k_end) (\<lambda>k. k + 1) (\<lambda>k sum.
                            Some (accumulate a b i k j sum)) sum1) (\<lambda>(k', sum2).
                   Some (MATRIX_SET c' i j sum2))))))))
               (c\<lparr>data := Some buf\<rparr>)
             = Some (Inr (c\<lparr>data := Some buf'\<rparr>))
           \<and> accumulated da db n m p (tiled_progress m p (unat ii) ie p p 0 0 (unat ii) p) buf'"
proof -
  let ?body = "\<lambda>jj.
                 for_loop 0 (\<lambda>kk. kk < cols a) (\<lambda>kk. kk + tile_size) (\<lambda>kk.
                 let i_end = (if ii + tile_size < rows a then ii + tile_size else rows a);
                     j_end = (if jj + tile_size < cols b then jj + tile_size else cols b);
                     k_end = (if kk + tile_size < cols a then kk + tile_size else cols a)
                 in
                 for_loop ii (\<lambda>i. i < i_end) (\<lambda>i. i + 1) (\<lambda>i.
                 for_loop jj (\<lambda>j. j < j_end) (\<lambda>j. j + 1) (\<lambda>j c'.
                   bindO (Some (MATRIX_GET c' i j)) (\<lambda>sum0.
                   bindO (for_from kk (\<lambda>k. k < k_end - 3) (\<lambda>k. k + 4) (\<lambda>k sum.
                            Some (bindR (accumulate a b i k j sum) (\<lambda>sum.
                                  bindR (accumulate a b i (k + 1) j sum) (\<lambda>sum.
                                  bindR (accumulate a b i (k + 2) j sum) (\<lambda>sum.
                                  accumulate a b i (k + 3) j sum))))) sum0) (\<lambda>(k, sum1).
                   bindO (for_from k (\<lambda>k. k < k_end) (\<lambda>k. k + 1) (\<lambda>k sum.
                            Some (accumulate a b i k j sum)) sum1) (\<lambda>(k', sum2).
                   Some (MATRIX_SET c' i j sum2)))))))"
  let ?K = "\<lambda>jj. tiled_progress m p (unat ii) ie jj jj 0 0 (unat ii) jj"
  let ?P = "\<lambda>q s. \<exists>buf'. s = c\<lparr>data := Some buf'\<rparr>
              \<and> accumulated da db n m p (?K (min (q * unat tile_size) p)) buf'"
  have "\<exists>q s'. for_loop 0 (\<lambda>jj. jj < cols b) (\<lambda>jj. jj + tile_size) ?body (c\<lparr>data := Some buf\<rparr>)
            = Some (Inr s') \<and> ?P q s'
          \<and> unat (cols b) \<le> q * unat tile_size \<and> (\<forall>q'<q. q' * unat tile_size < unat (cols b))"
  proof (rule for_loop_stride [where P = ?P])
    show "0 < unat tile_size" using tile(1) by simp
    show "unat (cols b) + unat tile_size < 2 ^ 64" using nowrap(2) by (simp add: p_def)
    show "?P 0 (c\<lparr>data := Some buf\<rparr>)"
      using acc by (intro exI [of _ buf]) simp
    fix q s
    assume q: "q * unat tile_size < unat (cols b)" and P: "?P q s"
    then obtain buf1 where s: "s = c\<lparr>data := Some buf1\<rparr>"
      and a1: "accumulated da db n m p (?K (q * unat tile_size)) buf1"
      by (auto simp: p_def)
    define jj :: size_t where "jj = of_nat (q * unat tile_size)"
    have "unat (cols b) < 2 ^ 64" using unsigned_less [of "cols b"] by simp
    with q have "q * unat tile_size < 2 ^ LENGTH(64)" by simp
    with jj_def [symmetric] have jj: "unat jj = q * unat tile_size"
      by (rule of_nat_inverse)
    with q have lt: "unat jj < p" by (simp add: p_def)
    define je where "je = min (unat jj + unat tile_size) p"
    have start: "accumulated da db n m p
        (tiled_progress m p (unat ii) ie (unat jj) je 0 0 (unat ii) (unat jj)) buf1"
      using a1 tiled_progress_k_start [of m p "unat ii" ie "unat jj" 0 je 0]
      by (simp add: jj)
    from tiled_kk_loop [OF ab c(1,2) c(3) [unfolded n_def p_def] tile(1) tile(2) [unfolded m_def]
        nowrap [unfolded n_def m_def p_def] pos [unfolded n_def] lt [unfolded p_def]
        start [unfolded n_def m_def p_def ie_def je_def]]
    obtain buf2 where run: "?body jj (c\<lparr>data := Some buf1\<rparr>) = Some (Inr (c\<lparr>data := Some buf2\<rparr>))"
      and a2: "accumulated da db n m p
                (tiled_progress m p (unat ii) ie (unat jj) je m 0 (unat ii) (unat jj)) buf2"
      unfolding n_def m_def p_def ie_def je_def by blast
    have "unat jj \<le> je" using lt by (simp add: je_def)
    then have "tiled_progress m p (unat ii) ie (unat jj) je m 0 (unat ii) (unat jj) = ?K je"
      by (rule tiled_progress_k_done)
    moreover have "je = min (Suc q * unat tile_size) p"
      using jj by (simp add: je_def add.commute)
    ultimately have "?P (Suc q) (c\<lparr>data := Some buf2\<rparr>)"
      using a2 by (intro exI [of _ buf2]) simp
    with run show "\<exists>s'. ?body (of_nat (q * unat tile_size)) s = Some (Inr s') \<and> ?P (Suc q) s'"
      unfolding s jj_def by blast
  qed
  then obtain q buf' where
    run: "for_loop 0 (\<lambda>jj. jj < cols b) (\<lambda>jj. jj + tile_size) ?body (c\<lparr>data := Some buf\<rparr>)
            = Some (Inr (c\<lparr>data := Some buf'\<rparr>))"
    and a: "accumulated da db n m p (?K (min (q * unat tile_size) p)) buf'"
    and q: "unat (cols b) \<le> q * unat tile_size"
    by blast
  from q have "min (q * unat tile_size) p = p" by (simp add: p_def)
  with a run show ?thesis by auto
qed

lemma matrix_mult_tiled_wide:
  fixes a b c :: Matrix and tile_size :: size_t
  defines "n \<equiv> unat (rows a)" and "m \<equiv> unat (cols a)" and "p \<equiv> unat (cols b)"
  assumes wf: "wf_matrix a" "wf_matrix b" "wf_matrix c" and compat: "compatible a b c"
    and d: "data a = Some da" "data b = Some db"
    and tile: "3 \<le> unat tile_size" "3 \<le> m"
    and nowrap: "n + unat tile_size < 2 ^ 64" "p + unat tile_size < 2 ^ 64"
      "m + unat tile_size < 2 ^ 64"
  shows "matrix_mult_tiled (Some a) (Some b) (Some c) tile_size =
           Some (Inr (Some \<lparr>data = Some (product_buf da db n m p), rows = rows a, cols = cols b\<rparr>))"
proof -
  from compat have dims: "cols a = rows b" "rows c = rows a" "cols c = cols b"
    by (simp_all add: compatible_def)
  from wf(3) dims have np: "n * p < 2 ^ 64" and dc: "data c \<noteq> None"
    by (auto simp: n_def p_def elim!: wf_matrixD)
  define c0 where "c0 = \<lparr>data = Some (replicate (n * p) 0), rows = rows a, cols = cols b\<rparr>"
  have zero: "matrix_init_zero (Some c) = Inr (Some c0)"
    using wf(3) dims by (simp add: matrix_init_zero_wf c0_def n_def p_def)
  have c0: "rows c0 = rows a" "cols c0 = cols b" "c0\<lparr>data := Some x\<rparr> =
      \<lparr>data = Some x, rows = rows a, cols = cols b\<rparr>" for x
    by (simp_all add: c0_def)
  let ?body = "\<lambda>ii.
                 for_loop 0 (\<lambda>jj. jj < cols b) (\<lambda>jj. jj + tile_size) (\<lambda>jj.
                 for_loop 0 (\<lambda>kk. kk < cols a) (\<lambda>kk. kk + tile_size) (\<lambda>kk.
                 let i_end = (if ii + tile_size < rows a then ii + tile_size else rows a);
                     j_end = (if jj + tile_size < cols b then jj + tile_size else cols b);
                     k_end = (if kk + tile_size < cols a then kk + tile_size else cols a)
                 in
                 for_loop ii (\<lambda>i. i < i_end) (\<lambda>i. i + 1) (\<lambda>i.
                 for_loop jj (\<lambda>j. j < j_end) (\<lambda>j. j + 1) (\<lambda>j c'.
                   bindO (Some (MATRIX_GET c' i j)) (\<lambda>sum0.
                   bindO (for_from kk (\<lambda>k. k < k_end - 3) (\<lambda>k. k + 4) (\<lambda>k sum.
                            Some (bindR (accumulate a b i k j sum) (\<lambda>sum.
                                  bindR (accumulate a b i (k + 1) j sum) (\<lambda>sum.
                                  bindR (accumulate a b i (k + 2) j sum) (\<lambda>sum.
                                  accumulate a b i (k + 3) j sum))))) sum0) (\<lambda>(k, sum1).
                   bindO (for_from k (\<lambda>k. k < k_end) (\<lambda>k. k + 1) (\<lambda>k sum.
                            Some (accumulate a b i k j sum)) sum1) (\<lambda>(k', sum2).
                   Some (MATRIX_SET c' i j sum2))))))))"
  let ?K = "\<lambda>ii. tiled_progress m p ii ii 0 0 0 0 ii 0"
  let ?P = "\<lambda>q s. \<exists>buf'. s = c0\<lparr>data := Some buf'\<rparr>
              \<and> accumulated da db n m p (?K (min (q * unat tile_size) n)) buf'"
  have "\<exists>q s'. for_loop 0 (\<lambda>ii. ii < rows a) (\<lambda>ii. ii + tile_size) ?body c0 = Some (Inr s')
          \<and> ?P q s'
          \<and> unat (rows a) \<le> q * unat tile_size \<and> (\<forall>q'<q. q' * unat tile_size < unat (rows a))"
  proof (rule for_loop_stride [where P = ?P])
    show "0 < unat tile_size" using tile(1) by simp
    show "unat (rows a) + unat tile_size < 2 ^ 64" using nowrap(1) by (simp add: n_def)
    have "accumulated da db n m p (?K 0) (replicate (n * p) 0)"
      by (rule accumulated_zero) (simp add: tiled_progress_init)
    then show "?P 0 c0"
      by (intro exI [of _ "replicate (n * p) 0"]) (simp add: c0_def)
    fix q s
    assume q: "q * unat tile_size < unat (rows a)" and P: "?P q s"
    then obtain buf1 where s: "s = c0\<lparr>data := Some buf1\<rparr>"
      and a1: "accumulated da db n m p (?K (q * unat tile_size)) buf1"
      by (auto simp: n_def)
    define ii :: size_t where "ii = of_nat (q * unat tile_size)"
    have "unat (rows a) < 2 ^ 64" using unsigned_less [of "rows a"] by simp
    with q have "q * unat tile_size < 2 ^ LENGTH(64)" by simp
    with ii_def [symmetric] have ii: "unat ii = q * unat tile_size"
      by (rule of_nat_inverse)
    with q have lt: "unat ii < n" by (simp add: n_def)
    define ie where "ie = min (unat ii + unat tile_size) n"
    have start: "accumulated da db n m p (tiled_progress m p (unat ii) ie 0 0 0 0 (unat ii) 0) buf1"
      using a1 tiled_progress_j_start [of m p "unat ii" 0 ie 0]
      by (simp add: ii)
    from tiled_jj_loop [OF wf(1,2) dims(1) d c0(1,2) np [unfolded n_def p_def] tile(1)
        tile(2) [unfolded m_def] nowrap [unfolded n_def m_def p_def] lt [unfolded n_def]
        start [unfolded n_def m_def p_def ie_def]]
    obtain buf2 where run: "?body ii (c0\<lparr>data := Some buf1\<rparr>) = Some (Inr (c0\<lparr>data := Some buf2\<rparr>))"
      and a2: "accumulated da db n m p (tiled_progress m p (unat ii) ie p p 0 0 (unat ii) p) buf2"
      unfolding n_def m_def p_def ie_def by blast
    have le: "unat ii \<le> ie" using lt by (simp add: ie_def)
    from a2 have "accumulated da db n m p (?K ie) buf2"
      by (rule accumulated_cong) (rule tiled_progress_j_done [OF le])
    moreover have "ie = min (Suc q * unat tile_size) n"
      using ii by (simp add: ie_def add.commute)
    ultimately have "?P (Suc q) (c0\<lparr>data := Some buf2\<rparr>)"
      by (intro exI [of _ buf2]) simp
    with run show "\<exists>s'. ?body (of_nat (q * unat tile_size)) s = Some (Inr s') \<and> ?P (Suc q) s'"
      unfolding s ii_def by blast
  qed
  then obtain q buf' where
    run: "for_loop 0 (\<lambda>ii. ii < rows a) (\<lambda>ii. ii + tile_size) ?body c0
            = Some (Inr (c0\<lparr>data := Some buf'\<rparr>))"
    and a: "accumulated da db n m p (?K (min (q * unat tile_size) n)) buf'"
    and q: "unat (rows a) \<le> q * unat tile_size"
    by blast
  from q have "min (q * unat tile_size) n = n" by (simp add: n_def)
  with a have "accumulated da db n m p (?K n) buf'" by simp
  then have "buf' = product_buf da db n m p"
    by (rule accumulated_complete) (rule tiled_progress_final)
  with run have run': "for_loop 0 (\<lambda>ii. ii < rows a) (\<lambda>ii. ii + tile_size) ?body c0 =
      Some (Inr \<lparr>data = Some (product_buf da db n m p), rows = rows a, cols = cols b\<rparr>)"
    by (simp add: c0)
  have nonnull: "(data a = None \<or> data b = None \<or> data c = None) = False"
    using d dc by simp
  have ok: "(cols a \<noteq> rows b \<or> rows a \<noteq> rows c \<or> cols b \<noteq> cols c) = False"
    using dims by simp
  show ?thesis
    unfolding matrix_mult_tiled_def
    by (simp only: prod.case option.case nonnull ok if_False zero Let_def bindO_simps
        run' [unfolded Let_def])
qed

text \<open>In that range the three kernels agree.\<close>

lemma kernels_agree:
  assumes "wf_matrix a" "wf_matrix b" "wf_matrix c" "compatible a b c"
    and "3 \<le> unat tile_size" "3 \<le> unat (cols a)" "8 \<le> unat (cols b)"
    and "unat (rows a) + unat tile_size < 2 ^ 64" "unat (cols b) + unat tile_size < 2 ^ 64"
      "unat (cols a) + unat tile_size < 2 ^ 64"
  shows "matrix_mult_tiled (Some a) (Some b) (Some c) tile_size =
           Some (matrix_mult_naive (Some a) (Some b) (Some c))
       \<and> matrix_mult_vector (Some a) (Some b) (Some c) =
           Some (matrix_mult_naive (Some a) (Some b) (Some c))"
proof -
  obtain da db where d: "data a = Some da" "data b = Some db"
    using assms(1,2) by (auto elim!: wf_matrixD)
  have "c\<lparr>data := Some x\<rparr> = \<lparr>data = Some x, rows = rows a, cols = cols b\<rparr>" for x
    using assms(4) by (cases c) (simp add: compatible_def)
  with naive_steps_wf [OF assms(1-4)] d
  have "matrix_mult_naive (Some a) (Some b) (Some c) =
      Inr (Some \<lparr>data = Some (product_buf da db (unat (rows a)) (unat (cols a)) (unat (cols b))),
                 rows = rows a, cols = cols b\<rparr>)"
    by (simp add: matrix_mult_naive_def)
  with matrix_mult_tiled_wide [OF assms(1-4) d assms(5,6,8,9,10)]
    matrix_mult_vector_wide [OF assms(1-4) d assms(7)]
  show ?thesis by simp
qed

text \<open>A run in that range: a \<open>1 \<times> 3\<close> by \<open>3 \<times> 8\<close> product with tile size 3.\<close>

lemma kernels_agree_example:
  "matrix_mult_tiled (Some (mk_matrix 1 3 [1, 2, 3]))
     (Some (mk_matrix 3 8 [1, 2, 3, 4, 5, 6, 7, 8, 1, 0, 0, 0, 0, 0, 0, 2, 1, 1, 1, 1, 1, 1, 1, 1]))
     (Some (mk_matrix 1 8 [9, 9, 9, 9, 9, 9, 9, 9])) 3 =
   Some (matrix_mult_naive (Some (mk_matrix 1 3 [1, 2, 3]))
     (Some (mk_matrix 3 8 [1, 2, 3, 4, 5, 6, 7, 8, 1, 0, 0, 0, 0, 0, 0, 2, 1, 1, 1, 1, 1, 1, 1, 1]))
     (Some (mk_matrix 1 8 [9, 9, 9, 9, 9, 9, 9, 9])))
   \<and> matrix_mult_vector (Some (mk_matrix 1 3 [1, 2, 3]))
     (Some (mk_matrix 3 8 [1, 2, 3, 4, 5, 6, 7, 8, 1, 0, 0, 0, 0, 0, 0, 2, 1, 1, 1, 1, 1, 1, 1, 1]))
     (Some (mk_matrix 1 8 [9, 9, 9, 9, 9, 9, 9, 9])) =
   Some (matrix_mult_naive (Some (mk_matrix 1 3 [1, 2, 3]))
     (Some (mk_matrix 3 8 [1, 2, 3, 4, 5, 6, 7, 8, 1, 0, 0, 0, 0, 0, 0, 2, 1, 1, 1, 1, 1, 1, 1, 1]))
     (Some (mk_matrix 1 8 [9, 9, 9, 9, 9, 9, 9, 9])))"
  by (rule kernels_agree) (simp_all add: wf_matrix_def compatible_def mk_matrix_def)

section \<open>Unsigned wrap-around in the unrolled and the chunked loop\<close>

text \<open>
  In \<^verbatim>\<open>matrix_mult_tiled\<close> the bound \<^verbatim>\<open>k_end - 3\<close> of the unrolled loop is a \<^verbatim>\<open>size_t\<close>
  difference: for \<open>k_end < 3\<close> it wraps to a value near \<open>2^64\<close>, the unrolled loop is
  entered and runs until it reads past the end of \<open>B\<close>.  In \<^verbatim>\<open>matrix_mult_vector\<close> the
  bound \<^verbatim>\<open>p - VECTOR_LENGTH\<close> wraps in the same way for \<open>p < 8\<close>, and the chunks of 8 lanes
  run past the end of the row until a lane leaves a buffer.
\<close>

text \<open>
  One lane of the vector-simulated kernel in row 0 of \<open>A\<close> and \<open>C\<close> and row 0 of \<open>B\<close>, at
  the column held in the word \<open>J\<close>: it stays in bounds exactly when \<open>J\<close> is below the
  lengths of both buffers.
\<close>

lemma vector_lane_row0:
  fixes b c :: Matrix and J :: size_t
  assumes b: "data b = Some db" and c: "cols c = cols b"
  shows "Some (bindR (MATRIX_GET (c\<lparr>data := Some buf\<rparr>) 0 J) (\<lambda>cv.
               bindR (MATRIX_GET b 0 J) (\<lambda>bv.
               MATRIX_SET (c\<lparr>data := Some buf\<rparr>) 0 J (cv + x * bv)))) =
         (if unat J < length buf \<and> unat J < length db
          then Some (Inr (c\<lparr>data := Some (buf[unat J := buf ! unat J + x * db ! unat J])\<rparr>))
          else Some (Inl OutOfBounds))"
  using b by (auto simp: MATRIX_GET_def MATRIX_SET_def Let_def)

lemma vector_lanes_row0:
  fixes b c :: Matrix and j :: size_t
  assumes b: "data b = Some db" and c: "cols c = cols b"
    and len: "length buf = N" and L: "L = min N (length db)" "L + 8 < 2 ^ 64"
    and j: "unat j \<le> L"
  shows "(unat j + 8 \<le> L \<longrightarrow>
            (\<exists>buf'. for_loop 0 (\<lambda>vj. vj < VECTOR_LENGTH) (\<lambda>vj. vj + 1) (\<lambda>vj c''.
                       Some (bindR (MATRIX_GET c'' 0 (j + vj)) (\<lambda>cv.
                             bindR (MATRIX_GET b 0 (j + vj)) (\<lambda>bv.
                             MATRIX_SET c'' 0 (j + vj) (cv + x * bv)))))
                       (c\<lparr>data := Some buf\<rparr>) = Some (Inr (c\<lparr>data := Some buf'\<rparr>))
               \<and> length buf' = N))
       \<and> (L < unat j + 8 \<longrightarrow>
            for_loop 0 (\<lambda>vj. vj < VECTOR_LENGTH) (\<lambda>vj. vj + 1) (\<lambda>vj c''.
                       Some (bindR (MATRIX_GET c'' 0 (j + vj)) (\<lambda>cv.
                             bindR (MATRIX_GET b 0 (j + vj)) (\<lambda>bv.
                             MATRIX_SET c'' 0 (j + vj) (cv + x * bv)))))
                       (c\<lparr>data := Some buf\<rparr>) = Some (Inl OutOfBounds))"
proof (intro conjI impI)
  let ?lane = "\<lambda>vj c''.
                       Some (bindR (MATRIX_GET c'' 0 (j + vj)) (\<lambda>cv.
                             bindR (MATRIX_GET b 0 (j + vj)) (\<lambda>bv.
                             MATRIX_SET c'' 0 (j + vj) (cv + x * bv))))"
  have col: "unat (j + of_nat v) = unat j + v" if "v < 8" for v
  proof -
    from that have "unat (of_nat v :: size_t) = v" by (simp add: unat_of_nat)
    moreover have "unat j + v < 2 ^ 64" using that j L(2) by simp
    ultimately show ?thesis by (simp add: unat_word_ariths)
  qed
  {
    assume fits: "unat j + 8 \<le> L"
    let ?P = "\<lambda>(v::nat) s. \<exists>buf'. s = c\<lparr>data := Some buf'\<rparr> \<and> length buf' = N"
    have "\<exists>s'. for_loop 0 (\<lambda>vj. vj < VECTOR_LENGTH) (\<lambda>vj. vj + 1) ?lane (c\<lparr>data := Some buf\<rparr>)
              = Some (Inr s') \<and> ?P (unat VECTOR_LENGTH) s'"
    proof (rule for_loop_upto [where P = ?P])
      show "(0::size_t) \<le> VECTOR_LENGTH" by simp
      show "?P (unat (0::size_t)) (c\<lparr>data := Some buf\<rparr>)" using len by blast
      fix v s
      assume "unat (0::size_t) \<le> v" and v: "v < unat VECTOR_LENGTH" and P: "?P v s"
      then obtain buf1 where s: "s = c\<lparr>data := Some buf1\<rparr>" and l1: "length buf1 = N" by blast
      from v have v8: "v < 8" by (simp add: VECTOR_LENGTH_def)
      with fits L(1) l1 have "unat j + v < length buf1 \<and> unat j + v < length db" by simp
      with vector_lane_row0 [OF b c, of buf1 "j + of_nat v" x] col [OF v8] l1
      show "\<exists>s'. ?lane (of_nat v) s = Some (Inr s') \<and> ?P (Suc v) s'"
        by (auto simp: s)
    qed
    then show "\<exists>buf'. for_loop 0 (\<lambda>vj. vj < VECTOR_LENGTH) (\<lambda>vj. vj + 1) ?lane
                 (c\<lparr>data := Some buf\<rparr>) = Some (Inr (c\<lparr>data := Some buf'\<rparr>)) \<and> length buf' = N"
      by auto
  }
  {
    assume over: "L < unat j + 8"
    let ?P = "\<lambda>v s. unat j + v \<le> L \<and> (\<exists>buf'. s = c\<lparr>data := Some buf'\<rparr> \<and> length buf' = N)"
    show "for_loop 0 (\<lambda>vj. vj < VECTOR_LENGTH) (\<lambda>vj. vj + 1) ?lane (c\<lparr>data := Some buf\<rparr>)
            = Some (Inl OutOfBounds)"
    proof (rule for_loop_upto_fault [where P = ?P])
      show "?P (unat (0::size_t)) (c\<lparr>data := Some buf\<rparr>)"
        using len j by (intro conjI exI [of _ buf]) simp_all
      fix v s
      assume P: "?P v s"
      then obtain buf1 where s: "s = c\<lparr>data := Some buf1\<rparr>" and l1: "length buf1 = N"
        and le: "unat j + v \<le> L" by blast
      from le over have v8: "v < 8" by simp
      show "v < unat VECTOR_LENGTH \<and> (?lane (of_nat v) s = Some (Inl OutOfBounds) \<or>
              (\<exists>s'. ?lane (of_nat v) s = Some (Inr s') \<and> ?P (Suc v) s'))"
      proof (cases "unat j + v < L")
        case True
        with L(1) l1 have "unat j + v < length buf1 \<and> unat j + v < length db" by simp
        with vector_lane_row0 [OF b c, of buf1 "j + of_nat v" x] col [OF v8] l1 True v8
        show ?thesis by (auto simp: s VECTOR_LENGTH_def)
      next
        case False
        with le have "unat j + v = L" by simp
        with L(1) l1 have "\<not> (unat j + v < length buf1 \<and> unat j + v < length db)" by auto
        with vector_lane_row0 [OF b c, of buf1 "j + of_nat v" x] col [OF v8] v8
        show ?thesis by (simp add: s VECTOR_LENGTH_def)
      qed
    qed
  }
qed

text \<open>
  For \<open>p < 8\<close> the chunked loop in row 0 keeps running past the end of the row until a
  lane leaves one of the buffers.
\<close>

lemma vector_chunks_narrow:
  fixes b c :: Matrix
  assumes b: "data b = Some db" and c: "cols c = cols b"
    and len: "length buf = N" "N + 8 < 2 ^ 63"
    and narrow: "unat (cols b) < 8"
  shows "for_from 0 (\<lambda>j. j \<le> cols b - VECTOR_LENGTH) (\<lambda>j. j + VECTOR_LENGTH) (\<lambda>j.
           for_loop 0 (\<lambda>vj. vj < VECTOR_LENGTH) (\<lambda>vj. vj + 1) (\<lambda>vj c''.
             Some (bindR (MATRIX_GET c'' 0 (j + vj)) (\<lambda>cv.
                   bindR (MATRIX_GET b 0 (j + vj)) (\<lambda>bv.
                   MATRIX_SET c'' 0 (j + vj) (cv + x * bv))))))
           (c\<lparr>data := Some buf\<rparr>) = Some (Inl OutOfBounds)"
proof -
  define L where "L = min N (length db)"
  have L: "L + 8 < 2 ^ 64" using len(2) by (simp add: L_def)
  let ?lanes = "\<lambda>j. for_loop 0 (\<lambda>vj. vj < VECTOR_LENGTH) (\<lambda>vj. vj + 1) (\<lambda>vj c''.
             Some (bindR (MATRIX_GET c'' 0 (j + vj)) (\<lambda>cv.
                   bindR (MATRIX_GET b 0 (j + vj)) (\<lambda>bv.
                   MATRIX_SET c'' 0 (j + vj) (cv + x * bv)))))"
  let ?I = "\<lambda>j s. unat j \<le> L \<and> (\<exists>buf'. s = c\<lparr>data := Some buf'\<rparr> \<and> length buf' = N)"
  have bound: "unat (cols b - VECTOR_LENGTH) = unat (cols b) + 2 ^ 64 - 8"
    using narrow by (simp add: unat_sub_if_size VECTOR_LENGTH_def word_size)
  show ?thesis
  proof (rule for_from_fault_rule [where I = ?I and f = "\<lambda>j. L + 8 - unat j"])
    show "?I 0 (c\<lparr>data := Some buf\<rparr>)"
      using len(1) by (intro conjI exI [of _ buf]) simp_all
    fix j :: size_t and s
    assume I: "?I j s"
    then obtain buf1 where s: "s = c\<lparr>data := Some buf1\<rparr>" and l1: "length buf1 = N"
      and j: "unat j \<le> L" by blast
    from j len(2) have "unat j \<le> unat (cols b) + 2 ^ 64 - 8"
      by (simp add: L_def)
    then have cond: "j \<le> cols b - VECTOR_LENGTH"
      by (simp add: word_le_nat_alt bound)
    note lanes = vector_lanes_row0 [OF b c l1 L_def L j, of x]
    show "j \<le> cols b - VECTOR_LENGTH \<and> (?lanes j s = Some (Inl OutOfBounds) \<or>
        (\<exists>s'. ?lanes j s = Some (Inr s') \<and> ?I (j + VECTOR_LENGTH) s' \<and>
           L + 8 - unat (j + VECTOR_LENGTH) < L + 8 - unat j))"
    proof (cases "unat j + 8 \<le> L")
      case True
      with lanes obtain buf2 where run: "?lanes j s = Some (Inr (c\<lparr>data := Some buf2\<rparr>))"
        and l2: "length buf2 = N" unfolding s by blast
      from True L have add: "unat (j + VECTOR_LENGTH) = unat j + 8"
        by (simp add: VECTOR_LENGTH_def unat_word_ariths)
      with True l2 have "?I (j + VECTOR_LENGTH) (c\<lparr>data := Some buf2\<rparr>)" by auto
      with run add True cond show ?thesis by auto
    next
      case False
      with lanes have "?lanes j s = Some (Inl OutOfBounds)" unfolding s by simp
      with cond show ?thesis by simp
    qed
  qed
qed

lemma matrix_mult_vector_narrow:
  fixes a b c :: Matrix
  assumes wf: "wf_matrix a" "wf_matrix b" "wf_matrix c" and compat: "compatible a b c"
    and pos: "0 < unat (rows a)" "0 < unat (cols a)"
    and narrow: "unat (cols b) < 8"
  shows "matrix_mult_vector (Some a) (Some b) (Some c) = Some (Inl OutOfBounds)"
proof -
  from compat have dims: "cols a = rows b" "rows c = rows a" "cols c = cols b"
    by (simp_all add: compatible_def)
  obtain da db where d: "data a = Some da" "data b = Some db"
    and lena: "length da = unat (rows a) * unat (cols a)"
    using wf(1,2) by (auto elim!: wf_matrixD)
  define N where "N = unat (rows a) * unat (cols b)"
  from wf(3) obtain bufc where bufc: "data c = Some bufc"
    "length bufc = unat (rows c) * unat (cols c)" "8 * length bufc < 2 ^ 64"
    by (auto simp only: wf_matrix_def split: option.splits)
  from bufc(1) have dc: "data c \<noteq> None" by simp
  from bufc(2) dims have "length bufc = N" by (simp add: N_def)
  with bufc(3) have "8 * N < 2 ^ 64" by (simp only:)
  then have N: "N + 8 < 2 ^ 63" by simp
  define c0 where "c0 = \<lparr>data = Some (replicate N 0), rows = rows a, cols = cols b\<rparr>"
  have zero: "matrix_init_zero (Some c) = Inr (Some c0)"
    using wf(3) dims by (simp add: matrix_init_zero_wf c0_def N_def)
  have c0: "cols c0 = cols b" "c0\<lparr>data := Some (replicate N 0)\<rparr> = c0"
    by (simp_all add: c0_def)
  from pos lena have "0 < length da" by simp
  then have geta: "MATRIX_GET a 0 0 = Inr (da ! 0)"
    using d(1) by (simp add: MATRIX_GET_def)
  have chunks: "for_from 0 (\<lambda>j. j \<le> cols b - VECTOR_LENGTH) (\<lambda>j. j + VECTOR_LENGTH) (\<lambda>j.
           for_loop 0 (\<lambda>vj. vj < VECTOR_LENGTH) (\<lambda>vj. vj + 1) (\<lambda>vj c''.
             Some (bindR (MATRIX_GET c'' 0 (j + vj)) (\<lambda>cv.
                   bindR (MATRIX_GET b 0 (j + vj)) (\<lambda>bv.
                   MATRIX_SET c'' 0 (j + vj) (cv + da ! 0 * bv))))))
           c0 = Some (Inl OutOfBounds)"
    using vector_chunks_narrow [OF d(2) c0(1) _ N narrow, of "replicate N 0" "da ! 0"]
    by (simp only: c0(2) length_replicate)
  let ?kbody = "\<lambda>i k c'.
                 bindO (Some (MATRIX_GET a i k)) (\<lambda>a_ik.
                 bindO (for_from 0 (\<lambda>j. j \<le> cols b - VECTOR_LENGTH) (\<lambda>j. j + VECTOR_LENGTH) (\<lambda>j.
                          for_loop 0 (\<lambda>vj. vj < VECTOR_LENGTH) (\<lambda>vj. vj + 1) (\<lambda>vj c''.
                            Some (bindR (MATRIX_GET c'' i (j + vj)) (\<lambda>cv.
                                  bindR (MATRIX_GET b k (j + vj)) (\<lambda>bv.
                                  MATRIX_SET c'' i (j + vj) (cv + a_ik * bv)))))) c') (\<lambda>(j, c'').
                 for_loop j (\<lambda>j. j < cols b) (\<lambda>j. j + 1) (\<lambda>j c3.
                   Some (bindR (MATRIX_GET c3 i j) (\<lambda>cv.
                         bindR (MATRIX_GET b k j) (\<lambda>bv.
                         MATRIX_SET c3 i j (cv + a_ik * bv))))) c''))"
  have k0: "?kbody 0 0 c0 = Some (Inl OutOfBounds)"
    by (simp only: geta bindO_simps chunks)
  have lt: "(0::size_t) < cols a" "(0::size_t) < rows a"
    using pos by (simp_all add: word_less_nat_alt)
  have i0: "for_loop 0 (\<lambda>k. k < cols a) (\<lambda>k. k + 1) (?kbody 0) c0 = Some (Inl OutOfBounds)"
    by (rule for_loop_first_fault [where body = "?kbody 0" and cond = "\<lambda>k. k < cols a",
          OF lt(1) k0])
  have run: "for_loop 0 (\<lambda>i. i < rows a) (\<lambda>i. i + 1)
      (\<lambda>i. for_loop 0 (\<lambda>k. k < cols a) (\<lambda>k. k + 1) (?kbody i)) c0 = Some (Inl OutOfBounds)"
    by (rule for_loop_first_fault
          [where body = "\<lambda>i. for_loop 0 (\<lambda>k. k < cols a) (\<lambda>k. k + 1) (?kbody i)"
             and cond = "\<lambda>i. i < rows a", OF lt(2) i0])
  have nonnull: "(data a = None \<or> data b = None \<or> data c = None) = False"
    using d dc by simp
  have ok: "(cols a \<noteq> rows b \<or> rows a \<noteq> rows c \<or> cols b \<noteq> cols c) = False"
    using dims by simp
  show ?thesis
    unfolding matrix_mult_vector_def
    by (simp only: prod.case option.case nonnull ok if_False zero Let_def bindO_simps run)
qed

text \<open>
  One accumulation step in row 0 of \<open>A\<close> and column 0 of \<open>B\<close>, at the product index held in
  the word \<open>K\<close>: it stays in bounds exactly when \<open>K\<close> is below \<open>m\<close>.
\<close>

lemma accumulate_row0:
  fixes a b :: Matrix and K :: size_t
  defines "n \<equiv> unat (rows a)" and "m \<equiv> unat (cols a)" and "p \<equiv> unat (cols b)"
  assumes ab: "wf_matrix a" "wf_matrix b" "cols a = rows b" "data a = Some da" "data b = Some db"
    and pos: "0 < n" "0 < p"
    and K: "unat K \<le> m"
  shows "accumulate a b 0 K 0 s =
           (if unat K < m then Inr (s + da ! unat K * db ! (unat K * p)) else Inl OutOfBounds)"
proof -
  from ab have lena: "length da = n * m" and lenb: "length db = m * p" and mp: "m * p < 2 ^ 64"
    by (auto simp: n_def m_def p_def elim!: wf_matrixD)
  from K have "unat K * p \<le> m * p" by (rule mult_le_mono1)
  then have "unat K * p < 2 ^ 64" using mp by (rule le_less_trans)
  then have idxb: "unat (K * cols b + 0) = unat K * p"
    by (simp add: unat_word_ariths p_def)
  have idxa: "unat (0 * cols a + K) = unat K" by simp
  have "m \<le> n * m" using pos(1) by simp
  show ?thesis
  proof (cases "unat K < m")
    case True
    with \<open>m \<le> n * m\<close> lena have "unat K < length da" by arith
    moreover from True pos(2) have "unat K * p < m * p" by simp
    with lenb have "unat K * p < length db" by arith
    ultimately show ?thesis
      using True ab(4,5) idxb
      by (simp add: accumulate_def MATRIX_GET_def)
  next
    case False
    with K have "unat K = m" by simp
    with lenb have "\<not> unat K * p < length db" by simp
    then show ?thesis
      using False ab(4,5) idxb
      by (auto simp: accumulate_def MATRIX_GET_def Let_def bindR_def split: sum.splits)
  qed
qed

text \<open>
  When \<open>k_end < 3\<close> the bound \<open>k_end - 3\<close> wraps and the unrolled loop runs until it reads
  row \<open>m\<close> of \<open>B\<close>.
\<close>

lemma tiled_unrolled_wraps:
  fixes a b :: Matrix and k_end :: size_t
  defines "n \<equiv> unat (rows a)" and "m \<equiv> unat (cols a)" and "p \<equiv> unat (cols b)"
  assumes ab: "wf_matrix a" "wf_matrix b" "cols a = rows b" "data a = Some da" "data b = Some db"
    and pos: "0 < n" "0 < p"
    and small: "unat k_end < 3" "m + 4 < 2 ^ 63"
  shows "for_from 0 (\<lambda>k. k < k_end - 3) (\<lambda>k. k + 4) (\<lambda>k sum.
           Some (bindR (accumulate a b 0 k 0 sum) (\<lambda>sum.
                 bindR (accumulate a b 0 (k + 1) 0 sum) (\<lambda>sum.
                 bindR (accumulate a b 0 (k + 2) 0 sum) (\<lambda>sum.
                 accumulate a b 0 (k + 3) 0 sum))))) s0 = Some (Inl OutOfBounds)"
proof -
  let ?body = "\<lambda>k sum.
           Some (bindR (accumulate a b 0 k 0 sum) (\<lambda>sum.
                 bindR (accumulate a b 0 (k + 1) 0 sum) (\<lambda>sum.
                 bindR (accumulate a b 0 (k + 2) 0 sum) (\<lambda>sum.
                 accumulate a b 0 (k + 3) 0 sum))))"
  have bound: "unat (k_end - 3) = unat k_end + 2 ^ 64 - 3"
    using small(1) by (simp add: unat_sub_if_size word_size)
  note acc = accumulate_row0 [OF ab pos [unfolded n_def p_def], folded m_def p_def]
  show ?thesis
  proof (rule for_from_fault_rule [where I = "\<lambda>k s. unat k \<le> m" and f = "\<lambda>k. m + 4 - unat k"])
    show "unat (0::size_t) \<le> m" by simp
    fix k :: size_t and s :: real
    assume k: "unat k \<le> m"
    define t where "t = unat k"
    from k small(2) have cond: "k < k_end - 3"
      by (simp add: word_less_nat_alt bound)
    from k small(2) have u: "unat (k + 1) = t + 1" "unat (k + 2) = t + 2" "unat (k + 3) = t + 3"
      "unat (k + 4) = t + 4"
      by (simp_all add: unat_word_ariths t_def)
    consider (go) "t + 4 \<le> m" | (f0) "t = m" | (f1) "t + 1 = m" | (f2) "t + 2 = m" | (f3) "t + 3 = m"
      using k unfolding t_def by arith
    then show "k < k_end - 3 \<and> (?body k s = Some (Inl OutOfBounds) \<or>
        (\<exists>s'. ?body k s = Some (Inr s') \<and> unat (k + 4) \<le> m \<and> m + 4 - unat (k + 4) < m + 4 - unat k))"
    proof cases
      case go
      then have "\<exists>s'. ?body k s = Some (Inr s')"
        using acc [of k] acc [of "k + 1"] acc [of "k + 2"] acc [of "k + 3"] u
        by (simp add: t_def)
      with go cond u show ?thesis by (auto simp: t_def)
    next
      case f0
      then have "?body k s = Some (Inl OutOfBounds)"
        using acc [of k] by (simp add: t_def)
      with cond show ?thesis by simp
    next
      case f1
      then have "?body k s = Some (Inl OutOfBounds)"
        using acc [of k] acc [of "k + 1"] u by (simp add: t_def)
      with cond show ?thesis by simp
    next
      case f2
      then have "?body k s = Some (Inl OutOfBounds)"
        using acc [of k] acc [of "k + 1"] acc [of "k + 2"] u by (simp add: t_def)
      with cond show ?thesis by simp
    next
      case f3
      then have "?body k s = Some (Inl OutOfBounds)"
        using acc [of k] acc [of "k + 1"] acc [of "k + 2"] acc [of "k + 3"] u by (simp add: t_def)
      with cond show ?thesis by simp
    qed
  qed
qed

lemma matrix_mult_tiled_narrow:
  fixes a b c :: Matrix and tile_size :: size_t
  assumes wf: "wf_matrix a" "wf_matrix b" "wf_matrix c" and compat: "compatible a b c"
    and pos: "0 < unat (rows a)" "0 < unat (cols a)" "0 < unat (cols b)" "0 < unat tile_size"
    and narrow: "unat tile_size < 3 \<or> unat (cols a) < 3"
  shows "matrix_mult_tiled (Some a) (Some b) (Some c) tile_size = Some (Inl OutOfBounds)"
proof -
  from compat have dims: "cols a = rows b" "rows c = rows a" "cols c = cols b"
    by (simp_all add: compatible_def)
  obtain da db where d: "data a = Some da" "data b = Some db"
    and lena: "length da = unat (rows a) * unat (cols a)" "8 * length da < 2 ^ 64"
    using wf(1,2) by (auto simp only: wf_matrix_def split: option.splits)
  define N where "N = unat (rows a) * unat (cols b)"
  from wf(3) have dc: "data c \<noteq> None"
    by (auto simp only: wf_matrix_def split: option.splits)
  define c0 where "c0 = \<lparr>data = Some (replicate N 0), rows = rows a, cols = cols b\<rparr>"
  have zero: "matrix_init_zero (Some c) = Inr (Some c0)"
    using wf(3) dims by (simp add: matrix_init_zero_wf c0_def N_def)
  have "0 < N" using pos(1,3) by (simp add: N_def)
  then have getc: "MATRIX_GET c0 0 0 = Inr 0"
    by (simp add: MATRIX_GET_def c0_def)
  have "unat (cols a) \<le> unat (rows a) * unat (cols a)" using pos(1) by simp
  with lena have "8 * unat (cols a) < 2 ^ 64" by arith
  then have m4: "unat (cols a) + 4 < 2 ^ 63" by simp
  define i_end where "i_end = (if 0 + tile_size < rows a then 0 + tile_size else rows a)"
  define j_end where "j_end = (if 0 + tile_size < cols b then 0 + tile_size else cols b)"
  define k_end where "k_end = (if 0 + tile_size < cols a then 0 + tile_size else cols a)"
  have nz: "(0::size_t) < tile_size" "(0::size_t) < rows a" "(0::size_t) < cols a"
    "(0::size_t) < cols b"
    using pos by (simp_all add: word_less_nat_alt)
  then have ends: "0 < i_end" "0 < j_end"
    by (simp_all add: i_end_def j_end_def)
  have ke: "unat k_end < 3"
    using narrow by (auto simp: k_end_def word_less_nat_alt)
  let ?cell = "\<lambda>kk ke i j c'.
                   bindO (Some (MATRIX_GET c' i j)) (\<lambda>sum0.
                   bindO (for_from kk (\<lambda>k. k < ke - 3) (\<lambda>k. k + 4) (\<lambda>k sum.
                            Some (bindR (accumulate a b i k j sum) (\<lambda>sum.
                                  bindR (accumulate a b i (k + 1) j sum) (\<lambda>sum.
                                  bindR (accumulate a b i (k + 2) j sum) (\<lambda>sum.
                                  accumulate a b i (k + 3) j sum))))) sum0) (\<lambda>(k, sum1).
                   bindO (for_from k (\<lambda>k. k < ke) (\<lambda>k. k + 1) (\<lambda>k sum.
                            Some (accumulate a b i k j sum)) sum1) (\<lambda>(k', sum2).
                   Some (MATRIX_SET c' i j sum2))))"
  let ?iend = "\<lambda>ii. if ii + tile_size < rows a then ii + tile_size else rows a"
  let ?jend = "\<lambda>jj. if jj + tile_size < cols b then jj + tile_size else cols b"
  let ?kend = "\<lambda>kk. if kk + tile_size < cols a then kk + tile_size else cols a"
  let ?row = "\<lambda>jj kk i. for_loop jj (\<lambda>j. j < ?jend jj) (\<lambda>j. j + 1) (?cell kk (?kend kk) i)"
  let ?block = "\<lambda>ii jj kk. for_loop ii (\<lambda>i. i < ?iend ii) (\<lambda>i. i + 1) (?row jj kk)"
  let ?kks = "\<lambda>ii jj. for_loop 0 (\<lambda>kk. kk < cols a) (\<lambda>kk. kk + tile_size) (?block ii jj)"
  let ?jjs = "\<lambda>ii. for_loop 0 (\<lambda>jj. jj < cols b) (\<lambda>jj. jj + tile_size) (?kks ii)"
  have unrolled: "for_from 0 (\<lambda>k. k < k_end - 3) (\<lambda>k. k + 4) (\<lambda>k sum.
           Some (bindR (accumulate a b 0 k 0 sum) (\<lambda>sum.
                 bindR (accumulate a b 0 (k + 1) 0 sum) (\<lambda>sum.
                 bindR (accumulate a b 0 (k + 2) 0 sum) (\<lambda>sum.
                 accumulate a b 0 (k + 3) 0 sum))))) 0 = Some (Inl OutOfBounds)"
    by (rule tiled_unrolled_wraps [OF wf(1,2) dims(1) d pos(1,3) ke m4])
  have cell: "?cell 0 k_end 0 0 c0 = Some (Inl OutOfBounds)"
    by (simp only: getc bindO_simps unrolled)
  have row: "?row 0 0 0 c0 = Some (Inl OutOfBounds)"
    by (rule for_loop_first_fault [where body = "?cell 0 (?kend 0) 0" and cond = "\<lambda>j. j < ?jend 0",
          OF ends(2) [unfolded j_end_def] cell [unfolded k_end_def]])
  have block: "?block 0 0 0 c0 = Some (Inl OutOfBounds)"
    by (rule for_loop_first_fault [where body = "?row 0 0" and cond = "\<lambda>i. i < ?iend 0",
          OF ends(1) [unfolded i_end_def] row])
  have kks: "?kks 0 0 c0 = Some (Inl OutOfBounds)"
    by (rule for_loop_first_fault [where body = "?block 0 0" and cond = "\<lambda>kk. kk < cols a",
          OF nz(3) block])
  have jjs: "?jjs 0 c0 = Some (Inl OutOfBounds)"
    by (rule for_loop_first_fault [where body = "?kks 0" and cond = "\<lambda>jj. jj < cols b",
          OF nz(4) kks])
  have run: "for_loop 0 (\<lambda>ii. ii < rows a) (\<lambda>ii. ii + tile_size) ?jjs c0 = Some (Inl OutOfBounds)"
    by (rule for_loop_first_fault [where body = ?jjs and cond = "\<lambda>ii. ii < rows a",
          OF nz(2) jjs])
  have nonnull: "(data a = None \<or> data b = None \<or> data c = None) = False"
    using d dc by simp
  have ok: "(cols a \<noteq> rows b \<or> rows a \<noteq> rows c \<or> cols b \<noteq> cols c) = False"
    using dims by simp
  show ?thesis
    unfolding matrix_mult_tiled_def
    by (simp only: prod.case option.case nonnull ok if_False zero Let_def bindO_simps run)
qed

text \<open>
  Claim C3.  The claim expects \<open>[[19,22],[43,50]]\<close> from the tiled kernel for
  \<open>A = [[1,2],[3,4]]\<close>, \<open>B = [[5,6],[7,8]]\<close> with tile size 1 and with tile size 2, the
  cleanup loop covering what the unrolled loop leaves.  The code does not do this:
  whenever the tile size or the inner dimension is below 3 (and no dimension is zero),
  the first block has \<open>k_end < 3\<close> and the run ends in an out-of-bounds read.  The claim's
  scenario is such a run, for both tile sizes.
\<close>

theorem tiled_small_tiles_fault:
  assumes "wf_matrix a" and "wf_matrix b" and "wf_matrix c" and "compatible a b c"
    and "0 < unat (rows a)" and "0 < unat (cols a)" and "0 < unat (cols b)"
    and "0 < unat tile_size"
    and "unat tile_size < 3 \<or> unat (cols a) < 3"
  shows "matrix_mult_tiled (Some a) (Some b) (Some c) tile_size = Some (Inl OutOfBounds)"
  using assms by (rule matrix_mult_tiled_narrow)

theorem tiled_small_tiles_fault_witness:
  "wf_matrix (mk_matrix 2 2 [1, 2, 3, 4]) \<and> wf_matrix (mk_matrix 2 2 [5, 6, 7, 8])
   \<and> wf_matrix (mk_matrix 2 2 [0, 0, 0, 0])
   \<and> compatible (mk_matrix 2 2 [1, 2, 3, 4]) (mk_matrix 2 2 [5, 6, 7, 8]) (mk_matrix 2 2 [0, 0, 0, 0])
   \<and> matrix_mult_tiled (Some (mk_matrix 2 2 [1, 2, 3, 4])) (Some (mk_matrix 2 2 [5, 6, 7, 8]))
        (Some (mk_matrix 2 2 [0, 0, 0, 0])) 1 = Some (Inl OutOfBounds)
   \<and> matrix_mult_tiled (Some (mk_matrix 2 2 [1, 2, 3, 4])) (Some (mk_matrix 2 2 [5, 6, 7, 8]))
        (Some (mk_matrix 2 2 [0, 0, 0, 0])) 2 = Some (Inl OutOfBounds)
   \<and> matrix_mult_tiled (Some (mk_matrix 2 2 [1, 2, 3, 4])) (Some (mk_matrix 2 2 [5, 6, 7, 8]))
        (Some (mk_matrix 2 2 [0, 0, 0, 0])) 1 \<noteq> Some (Inr (Some (mk_matrix 2 2 [19, 22, 43, 50])))
   \<and> matrix_mult_tiled (Some (mk_matrix 2 2 [1, 2, 3, 4])) (Some (mk_matrix 2 2 [5, 6, 7, 8]))
        (Some (mk_matrix 2 2 [0, 0, 0, 0])) 2 \<noteq> Some (Inr (Some (mk_matrix 2 2 [19, 22, 43, 50])))"
proof -
  have wf: "wf_matrix (mk_matrix 2 2 [1, 2, 3, 4])" "wf_matrix (mk_matrix 2 2 [5, 6, 7, 8])"
    "wf_matrix (mk_matrix 2 2 [0, 0, 0, 0])"
    and co: "compatible (mk_matrix 2 2 [1, 2, 3, 4]) (mk_matrix 2 2 [5, 6, 7, 8])
               (mk_matrix 2 2 [0, 0, 0, 0])"
    by (simp_all add: wf_matrix_def compatible_def mk_matrix_def)
  have pos: "0 < unat (rows (mk_matrix 2 2 [1, 2, 3, 4]))" "0 < unat (cols (mk_matrix 2 2 [1, 2, 3, 4]))"
    "0 < unat (cols (mk_matrix 2 2 [5, 6, 7, 8]))"
    by (simp_all add: mk_matrix_def)
  have t1: "0 < unat (1 :: size_t)"
    "unat (1 :: size_t) < 3 \<or> unat (cols (mk_matrix 2 2 [1, 2, 3, 4])) < 3"
    and t2: "0 < unat (2 :: size_t)"
    "unat (2 :: size_t) < 3 \<or> unat (cols (mk_matrix 2 2 [1, 2, 3, 4])) < 3"
    by simp_all
  from tiled_small_tiles_fault [OF wf co pos t1] tiled_small_tiles_fault [OF wf co pos t2] wf co
  show ?thesis by simp
qed

text \<open>
  Claim C4.  The claim expects that for every \<open>p \<ge> 1\<close>, also below the lane count 8, the
  chunked loop of the vector-simulated kernel handles only full groups of 8 in-bounds
  columns, so that every access stays within the matrices.  The code does not do this:
  for every \<open>p < 8\<close> (and \<open>n, m > 0\<close>) the chunked loop is entered and the run ends in an
  out-of-bounds access.  For \<open>p \<ge> 8\<close> the claim holds, see \<open>matrix_mult_vector_wide\<close>.
\<close>

theorem vector_narrow_faults:
  assumes "wf_matrix a" and "wf_matrix b" and "wf_matrix c" and "compatible a b c"
    and "0 < unat (rows a)" and "0 < unat (cols a)"
    and "unat (cols b) < 8"
  shows "matrix_mult_vector (Some a) (Some b) (Some c) = Some (Inl OutOfBounds)"
  using assms by (rule matrix_mult_vector_narrow)

theorem vector_narrow_faults_witness:
  "wf_matrix (mk_matrix 3 3 [1, 2, 3, 4, 5, 6, 7, 8, 9])
   \<and> wf_matrix (mk_matrix 3 3 [1, 0, 0, 0, 1, 0, 0, 0, 1])
   \<and> wf_matrix (mk_matrix 3 3 [0, 0, 0, 0, 0, 0, 0, 0, 0])
   \<and> compatible (mk_matrix 3 3 [1, 2, 3, 4, 5, 6, 7, 8, 9])
        (mk_matrix 3 3 [1, 0, 0, 0, 1, 0, 0, 0, 1]) (mk_matrix 3 3 [0, 0, 0, 0, 0, 0, 0, 0, 0])
   \<and> unat (cols (mk_matrix 3 3 [1, 0, 0, 0, 1, 0, 0, 0, 1])) = 3
   \<and> matrix_mult_naive (Some (mk_matrix 3 3 [1, 2, 3, 4, 5, 6, 7, 8, 9]))
        (Some (mk_matrix 3 3 [1, 0, 0, 0, 1, 0, 0, 0, 1]))
        (Some (mk_matrix 3 3 [0, 0, 0, 0, 0, 0, 0, 0, 0])) =
      Inr (Some (mk_matrix 3 3 [1, 2, 3, 4, 5, 6, 7, 8, 9]))
   \<and> matrix_mult_vector (Some (mk_matrix 3 3 [1, 2, 3, 4, 5, 6, 7, 8, 9]))
        (Some (mk_matrix 3 3 [1, 0, 0, 0, 1, 0, 0, 0, 1]))
        (Some (mk_matrix 3 3 [0, 0, 0, 0, 0, 0, 0, 0, 0])) = Some (Inl OutOfBounds)"
proof -
  let ?a = "mk_matrix 3 3 [1, 2, 3, 4, 5, 6, 7, 8, 9]"
  let ?b = "mk_matrix 3 3 [1, 0, 0, 0, 1, 0, 0, 0, 1]"
  let ?c = "mk_matrix 3 3 [0, 0, 0, 0, 0, 0, 0, 0, 0]"
  have wf: "wf_matrix ?a" "wf_matrix ?b" "wf_matrix ?c" and co: "compatible ?a ?b ?c"
    by (simp_all add: wf_matrix_def compatible_def mk_matrix_def)
  have pos: "0 < unat (rows ?a)" "0 < unat (cols ?a)" "unat (cols ?b) < 8"
    and p: "unat (cols ?b) = 3"
    by (simp_all add: mk_matrix_def)
  have naive: "matrix_mult_naive (Some ?a) (Some ?b) (Some ?c) = Inr (Some ?a)"
    by code_simp
  from vector_narrow_faults [OF wf co pos] wf co p naive show ?thesis by simp
qed

text \<open>
  Claim C1.  The claim expects element-wise equal outputs of the naive, the tiled and the
  vector-simulated kernel for all dimensions \<open>n, m, p\<close> in \<open>[2, 128]\<close> and all tile sizes in
  \<open>[1, n]\<close>.  The code does not do this: when the tile size or \<open>m\<close> is below 3, or \<open>p\<close> is
  below 8, the naive kernel returns the product while the tiled or the vector-simulated
  kernel ends in an out-of-bounds access.  Outside these cases the three outputs are
  equal, see \<open>kernels_agree\<close>.
\<close>

theorem kernels_disagree:
  assumes "wf_matrix a" and "wf_matrix b" and "wf_matrix c" and "compatible a b c"
    and "data a = Some da" and "data b = Some db"
    and "0 < unat (rows a)" and "0 < unat (cols a)" and "0 < unat (cols b)"
    and "0 < unat tile_size"
    and "unat tile_size < 3 \<or> unat (cols a) < 3 \<or> unat (cols b) < 8"
  shows "matrix_mult_naive (Some a) (Some b) (Some c) =
           Inr (Some \<lparr>data = Some (product_buf da db (unat (rows a)) (unat (cols a)) (unat (cols b))),
                      rows = rows a, cols = cols b\<rparr>)
       \<and> (matrix_mult_tiled (Some a) (Some b) (Some c) tile_size = Some (Inl OutOfBounds)
          \<or> matrix_mult_vector (Some a) (Some b) (Some c) = Some (Inl OutOfBounds))
       \<and> \<not> (matrix_mult_tiled (Some a) (Some b) (Some c) tile_size =
               Some (matrix_mult_naive (Some a) (Some b) (Some c))
            \<and> matrix_mult_vector (Some a) (Some b) (Some c) =
               Some (matrix_mult_naive (Some a) (Some b) (Some c)))"
proof -
  have "c\<lparr>data := Some x\<rparr> = \<lparr>data = Some x, rows = rows a, cols = cols b\<rparr>" for x
    using assms(4) by (cases c) (simp add: compatible_def)
  with naive_steps_wf [OF assms(1-4)] assms(5,6)
  have naive: "matrix_mult_naive (Some a) (Some b) (Some c) =
      Inr (Some \<lparr>data = Some (product_buf da db (unat (rows a)) (unat (cols a)) (unat (cols b))),
                 rows = rows a, cols = cols b\<rparr>)"
    by (simp add: matrix_mult_naive_def)
  from assms(11) consider "unat tile_size < 3 \<or> unat (cols a) < 3" | "unat (cols b) < 8"
    by blast
  then have "matrix_mult_tiled (Some a) (Some b) (Some c) tile_size = Some (Inl OutOfBounds)
          \<or> matrix_mult_vector (Some a) (Some b) (Some c) = Some (Inl OutOfBounds)"
  proof cases
    case 1
    with assms(1-4,7-10) have "matrix_mult_tiled (Some a) (Some b) (Some c) tile_size =
        Some (Inl OutOfBounds)"
      by (intro matrix_mult_tiled_narrow)
    then show ?thesis ..
  next
    case 2
    with assms(1-4,7,8) have "matrix_mult_vector (Some a) (Some b) (Some c) = Some (Inl OutOfBounds)"
      by (intro matrix_mult_vector_narrow)
    then show ?thesis ..
  qed
  with naive show ?thesis by auto
qed

theorem kernels_disagree_witness:
  "wf_matrix (mk_matrix 2 2 [1, 2, 3, 4]) \<and> wf_matrix (mk_matrix 2 2 [5, 6, 7, 8])
   \<and> wf_matrix (mk_matrix 2 2 [0, 0, 0, 0])
   \<and> compatible (mk_matrix 2 2 [1, 2, 3, 4]) (mk_matrix 2 2 [5, 6, 7, 8]) (mk_matrix 2 2 [0, 0, 0, 0])
   \<and> matrix_mult_naive (Some (mk_matrix 2 2 [1, 2, 3, 4])) (Some (mk_matrix 2 2 [5, 6, 7, 8]))
        (Some (mk_matrix 2 2 [0, 0, 0, 0])) = Inr (Some (mk_matrix 2 2 [19, 22, 43, 50]))
   \<and> matrix_mult_tiled (Some (mk_matrix 2 2 [1, 2, 3, 4])) (Some (mk_matrix 2 2 [5, 6, 7, 8]))
        (Some (mk_matrix 2 2 [0, 0, 0, 0])) 1 = Some (Inl OutOfBounds)
   \<and> matrix_mult_vector (Some (mk_matrix 2 2 [1, 2, 3, 4])) (Some (mk_matrix 2 2 [5, 6, 7, 8]))
        (Some (mk_matrix 2 2 [0, 0, 0, 0])) = Some (Inl OutOfBounds)
   \<and> \<not> (matrix_mult_tiled (Some (mk_matrix 2 2 [1, 2, 3, 4])) (Some (mk_matrix 2 2 [5, 6, 7, 8]))
          (Some (mk_matrix 2 2 [0, 0, 0, 0])) 1 =
        Some (matrix_mult_naive (Some (mk_matrix 2 2 [1, 2, 3, 4])) (Some (mk_matrix 2 2 [5, 6, 7, 8]))
          (Some (mk_matrix 2 2 [0, 0, 0, 0])))
      \<and> matrix_mult_vector (Some (mk_matrix 2 2 [1, 2, 3, 4])) (Some (mk_matrix 2 2 [5, 6, 7, 8]))
          (Some (mk_matrix 2 2 [0, 0, 0, 0])) =
        Some (matrix_mult_naive (Some (mk_matrix 2 2 [1, 2, 3, 4])) (Some (mk_matrix 2 2 [5, 6, 7, 8]))
          (Some (mk_matrix 2 2 [0, 0, 0, 0]))))"
proof -
  have wf: "wf_matrix (mk_matrix 2 2 [1, 2, 3, 4])" "wf_matrix (mk_matrix 2 2 [5, 6, 7, 8])"
    "wf_matrix (mk_matrix 2 2 [0, 0, 0, 0])"
    and co: "compatible (mk_matrix 2 2 [1, 2, 3, 4]) (mk_matrix 2 2 [5, 6, 7, 8])
               (mk_matrix 2 2 [0, 0, 0, 0])"
    by (simp_all add: wf_matrix_def compatible_def mk_matrix_def)
  have d: "data (mk_matrix 2 2 [1, 2, 3, 4]) = Some [1, 2, 3, 4]"
    "data (mk_matrix 2 2 [5, 6, 7, 8]) = Some [5, 6, 7, 8]"
    and pos: "0 < unat (rows (mk_matrix 2 2 [1, 2, 3, 4]))" "0 < unat (cols (mk_matrix 2 2 [1, 2, 3, 4]))"
    "0 < unat (cols (mk_matrix 2 2 [5, 6, 7, 8]))" "0 < unat (1 :: size_t)"
    "unat (1 :: size_t) < 3 \<or> unat (cols (mk_matrix 2 2 [1, 2, 3, 4])) < 3
       \<or> unat (cols (mk_matrix 2 2 [5, 6, 7, 8])) < 8"
    by (simp_all add: mk_matrix_def)
  have ev: "matrix_mult_tiled (Some (mk_matrix 2 2 [1, 2, 3, 4])) (Some (mk_matrix 2 2 [5, 6, 7, 8]))
        (Some (mk_matrix 2 2 [0, 0, 0, 0])) 1 = Some (Inl OutOfBounds)"
    "matrix_mult_vector (Some (mk_matrix 2 2 [1, 2, 3, 4])) (Some (mk_matrix 2 2 [5, 6, 7, 8]))
        (Some (mk_matrix 2 2 [0, 0, 0, 0])) = Some (Inl OutOfBounds)"
    by code_simp+
  have pb: "product_buf [1, 2, 3, 4] [5, 6, 7, 8] 2 2 2 = [19, 22, 43, 50]"
    by code_simp
  from kernels_disagree [OF wf co d pos] ev pb wf co show ?thesis
    by (simp add: mk_matrix_def)
qed

section \<open>Tile-size helper\<close>

lemma sqrt_loop:
  fixes e :: size_t
  assumes e: "unat e < 2 ^ 62"
  shows "\<exists>t. while_loop (\<lambda>tile_size. tile_size * tile_size \<le> e)
               (\<lambda>tile_size. Some (Inr (tile_size + 1))) 1 = Some (Inr t)
             \<and> 1 \<le> unat t \<and> (unat t - 1) * (unat t - 1) \<le> unat e \<and> unat e < unat t * unat t"
proof -
  let ?I = "\<lambda>t::size_t. 1 \<le> unat t \<and> unat t \<le> 2 ^ 31 \<and> (unat t - 1) * (unat t - 1) \<le> unat e"
  have sq: "unat (t * t) = unat t * unat t" if "unat t \<le> 2 ^ 31" for t :: size_t
  proof -
    from that have "unat t * unat t \<le> 2 ^ 31 * 2 ^ 31"
      by (intro mult_mono) simp_all
    then have "unat t * unat t < 2 ^ 64" by simp
    then show ?thesis by (simp add: unat_word_ariths)
  qed
  have "\<exists>t. while_loop (\<lambda>tile_size. tile_size * tile_size \<le> e)
               (\<lambda>tile_size. Some (Inr (tile_size + 1))) 1 = Some (Inr t)
             \<and> ?I t \<and> \<not> t * t \<le> e"
  proof (rule while_loop_rule [where I = ?I and f = "\<lambda>t. 2 ^ 31 + 1 - unat t"])
    show "?I 1" by simp
    fix t :: size_t
    assume I: "?I t" and c: "t * t \<le> e"
    from c I have le: "unat t * unat t \<le> unat e"
      by (simp add: word_le_nat_alt sq)
    have "unat t < 2 ^ 31"
    proof (rule ccontr)
      assume "\<not> unat t < 2 ^ 31"
      then have "(2::nat) ^ 31 * 2 ^ 31 \<le> unat t * unat t"
        by (intro mult_mono) simp_all
      with le e show False by simp
    qed
    then have suc: "unat (t + 1) = unat t + 1"
      by (simp add: unat_word_ariths)
    with I le \<open>unat t < 2 ^ 31\<close>
    show "\<exists>s'. Some (Inr (t + 1)) = Some (Inr s') \<and> ?I s' \<and>
            2 ^ 31 + 1 - unat s' < 2 ^ 31 + 1 - unat t"
      by simp
  qed
  then obtain t where "while_loop (\<lambda>tile_size. tile_size * tile_size \<le> e)
               (\<lambda>tile_size. Some (Inr (tile_size + 1))) 1 = Some (Inr t)"
    and I: "?I t" and ex: "\<not> t * t \<le> e" by blast
  moreover from ex I have "unat e < unat t * unat t"
    by (simp add: word_le_nat_alt sq)
  ultimately show ?thesis by blast
qed

lemma pow2_loop:
  fixes ts :: size_t
  assumes ts: "8 \<le> unat ts" "unat ts \<le> 256"
  shows "\<exists>pw k. while_loop (\<lambda>power_of_2. power_of_2 \<le> ts)
               (\<lambda>power_of_2. Some (Inr (push_bit 1 power_of_2))) 1 = Some (Inr pw)
             \<and> unat (drop_bit 1 pw) = 2 ^ k \<and> 2 ^ k \<le> unat ts \<and> unat ts < 2 ^ Suc k"
proof -
  let ?I = "\<lambda>pw::size_t. \<exists>k. unat pw = 2 ^ k \<and> k \<le> 9 \<and> (0 < k \<longrightarrow> 2 ^ (k - 1) \<le> unat ts)"
  have "\<exists>pw. while_loop (\<lambda>power_of_2. power_of_2 \<le> ts)
               (\<lambda>power_of_2. Some (Inr (push_bit 1 power_of_2))) 1 = Some (Inr pw)
             \<and> ?I pw \<and> \<not> pw \<le> ts"
  proof (rule while_loop_rule [where I = ?I and f = "\<lambda>pw. 1024 - unat pw"])
    show "?I 1" by (intro exI [of _ 0]) simp
    fix pw :: size_t
    assume I: "?I pw" and c: "pw \<le> ts"
    then obtain k where k: "unat pw = 2 ^ k" "k \<le> 9" by blast
    from c have le: "unat pw \<le> unat ts" by (simp add: word_le_nat_alt)
    with ts have "unat pw \<le> 256" by simp
    then have dbl: "unat (push_bit 1 pw) = 2 * unat pw"
      by (simp add: push_bit_eq_mult unat_word_ariths)
    have "k \<le> 8"
    proof (rule ccontr)
      assume "\<not> k \<le> 8"
      with k have "k = 9" by simp
      with k \<open>unat pw \<le> 256\<close> show False by simp
    qed
    have "unat (push_bit 1 pw) = 2 ^ Suc k \<and> Suc k \<le> 9 \<and>
            (0 < Suc k \<longrightarrow> 2 ^ (Suc k - 1) \<le> unat ts)"
      using dbl k le \<open>k \<le> 8\<close> by simp
    then have "?I (push_bit 1 pw)" by blast
    moreover have "0 < unat pw" using k by simp
    then have "1024 - unat (push_bit 1 pw) < 1024 - unat pw"
      using dbl \<open>unat pw \<le> 256\<close> by arith
    ultimately show "\<exists>s'. Some (Inr (push_bit 1 pw)) = Some (Inr s') \<and> ?I s' \<and>
            1024 - unat s' < 1024 - unat pw"
      by blast
  qed
  then obtain pw k where run: "while_loop (\<lambda>power_of_2. power_of_2 \<le> ts)
               (\<lambda>power_of_2. Some (Inr (push_bit 1 power_of_2))) 1 = Some (Inr pw)"
    and k: "unat pw = 2 ^ k" "k \<le> 9" "0 < k \<longrightarrow> 2 ^ (k - 1) \<le> unat ts"
    and ex: "\<not> pw \<le> ts" by blast
  from ex have gt: "unat ts < unat pw" by (simp add: word_le_nat_alt)
  have "0 < k"
  proof (rule ccontr)
    assume "\<not> 0 < k"
    with k gt ts show False by simp
  qed
  then obtain k' where k': "k = Suc k'" by (cases k) simp_all
  have "unat (drop_bit 1 pw) = unat pw div 2"
    by (simp add: drop_bit_eq_div unat_div)
  with k k' gt have "unat (drop_bit 1 pw) = 2 ^ k' \<and> 2 ^ k' \<le> unat ts \<and> unat ts < 2 ^ Suc k'"
    by simp
  with run show ?thesis by blast
qed

text \<open>
  Claim C9.  With \<open>e\<close> the capacity divided by 4 and then by 3 times the element size,
  \<^verbatim>\<open>calculate_optimal_tile_size\<close> returns \<open>r\<close> such that, for the integer square root \<open>t\<close>
  of \<open>e\<close> (reached by incrementing a trial size until its square exceeds \<open>e\<close> and stepping
  back one) clamped to \<open>[8, 256]\<close>, \<open>r\<close> is the largest power of two not above the clamped
  value; \<open>r\<close> is a power of two in \<open>[8, 256]\<close>.  For a capacity of 32768 bytes and elements
  of 8 bytes the result is 16.
\<close>

theorem optimal_tile_size_spec:
  fixes cache_size_bytes element_size :: size_t
  defines "e \<equiv> unat cache_size_bytes div 4 div (3 * unat element_size)"
  assumes pos: "0 < unat element_size" and small: "3 * unat element_size < 2 ^ 64"
  shows "\<exists>r t k. calculate_optimal_tile_size cache_size_bytes element_size = Some (Inr r)
           \<and> t * t \<le> e \<and> e < Suc t * Suc t
           \<and> unat r = 2 ^ k \<and> 2 ^ k \<le> max 8 (min 256 t) \<and> max 8 (min 256 t) < 2 ^ Suc k
           \<and> 8 \<le> unat r \<and> unat r \<le> 256"
proof -
  define ew where "ew = cache_size_bytes div 4 div (3 * element_size)"
  have d: "unat (3 * element_size) = 3 * unat element_size"
    using small by (simp add: unat_word_ariths)
  with pos have nz: "3 * element_size \<noteq> 0"
    by (metis mult_is_0 not_less_zero unat_0 zero_neq_numeral less_numeral_extra(3))
  have ew: "unat ew = e"
    by (simp add: ew_def e_def unat_div d)
  have "unat cache_size_bytes < 2 ^ 64"
    using unsigned_less [of cache_size_bytes] by simp
  then have "unat cache_size_bytes div 4 < 2 ^ 62" by simp
  moreover have "e \<le> unat cache_size_bytes div 4"
    unfolding e_def by (rule div_le_dividend)
  ultimately have "unat ew < 2 ^ 62" using ew by simp
  from sqrt_loop [OF this] obtain t1 where
    run1: "while_loop (\<lambda>tile_size. tile_size * tile_size \<le> ew)
             (\<lambda>tile_size. Some (Inr (tile_size + 1))) 1 = Some (Inr t1)"
    and t1: "1 \<le> unat t1" "(unat t1 - 1) * (unat t1 - 1) \<le> e" "e < unat t1 * unat t1"
    unfolding ew by blast
  define t where "t = unat t1 - 1"
  from t1 have t: "t * t \<le> e" "e < Suc t * Suc t" "unat t1 = Suc t"
    by (simp_all add: t_def)
  from t1(1) have "t1 \<noteq> 0" by (metis unat_0 not_one_le_zero)
  then have m1: "unat (t1 - 1) = t"
    by (simp add: unat_minus_one t_def)
  define ts :: size_t where
    "ts = (let tile_size = t1 - 1;
               tile_size = (if tile_size < 8 then 8 else tile_size);
               tile_size = (if tile_size > 256 then 256 else tile_size)
           in tile_size)"
  have ts: "unat ts = max 8 (min 256 t)"
    using m1 by (auto simp: ts_def Let_def word_less_nat_alt)
  then have "8 \<le> unat ts" "unat ts \<le> 256" by simp_all
  from pow2_loop [OF this] obtain pw k where
    run2: "while_loop (\<lambda>power_of_2. power_of_2 \<le> ts)
             (\<lambda>power_of_2. Some (Inr (push_bit 1 power_of_2))) 1 = Some (Inr pw)"
    and k: "unat (drop_bit 1 pw) = 2 ^ k" "2 ^ k \<le> unat ts" "unat ts < 2 ^ Suc k"
    by blast
  have res: "calculate_optimal_tile_size cache_size_bytes element_size = Some (Inr (drop_bit 1 pw))"
    using nz run1 run2 unfolding calculate_optimal_tile_size_def ew_def ts_def Let_def
    by simp
  have "3 \<le> k"
  proof (rule ccontr)
    assume "\<not> 3 \<le> k"
    then have "Suc k \<le> 3" by simp
    then have "(2::nat) ^ Suc k \<le> 2 ^ 3" by (intro power_increasing) simp_all
    with k(3) \<open>8 \<le> unat ts\<close> show False by simp
  qed
  then have "(2::nat) ^ 3 \<le> 2 ^ k" by (intro power_increasing) simp_all
  then have "(8::nat) \<le> 2 ^ k" by simp
  with k ts \<open>unat ts \<le> 256\<close> t res show ?thesis
    by (intro exI [of _ "drop_bit 1 pw"] exI [of _ t] exI [of _ k]) simp
qed

theorem optimal_tile_size_spec_witness:
  "0 < unat (8 :: size_t) \<and> 3 * unat (8 :: size_t) < 2 ^ 64
   \<and> unat (32768 :: size_t) div 4 div (3 * unat (8 :: size_t)) = 341
   \<and> calculate_optimal_tile_size 32768 8 = Some (Inr 16)
   \<and> (\<exists>t k. t * t \<le> (341::nat) \<and> 341 < Suc t * Suc t
         \<and> unat (16 :: size_t) = 2 ^ k \<and> 2 ^ k \<le> max 8 (min 256 t) \<and> max 8 (min 256 t) < 2 ^ Suc k)
   \<and> 8 \<le> unat (16 :: size_t) \<and> unat (16 :: size_t) \<le> 256"
proof -
  have h: "0 < unat (8 :: size_t)" "3 * unat (8 :: size_t) < 2 ^ 64"
    by simp_all
  have v: "calculate_optimal_tile_size 32768 8 = Some (Inr 16)"
    by code_simp
  from optimal_tile_size_spec [OF h, of 32768] v show ?thesis
    by auto
qed

section \<open>Random initialisation\<close>

lemma lcg_stream_length: "length (fst (lcg_stream lo hi seed k)) = k"
  by (induction k) (auto split: prod.splits)

lemma init_random_loop:
  assumes len: "length buf0 = unat n"
  shows "for_upto 0 n (\<lambda>i (buf, seed).
            case random_double lo hi seed of
              (v, seed') \<Rightarrow>
                if unat i < length buf then Inr (buf[unat i := v], seed')
                else Inl OutOfBounds) (buf0, seed0) = Inr (lcg_stream lo hi seed0 (unat n))"
proof -
  let ?body = "\<lambda>i (buf, seed).
            case random_double lo hi seed of
              (v, seed') \<Rightarrow>
                if unat (i::size_t) < length buf then Inr (buf[unat i := v], seed')
                else Inl OutOfBounds"
  let ?P = "\<lambda>k s. length (fst s) = unat n \<and> take k (fst s) = fst (lcg_stream lo hi seed0 k)
              \<and> snd s = snd (lcg_stream lo hi seed0 k)"
  have "\<exists>s'. for_upto 0 n ?body (buf0, seed0) = Inr s' \<and> ?P (unat n) s'"
  proof (rule for_upto_rule [where P = ?P])
    show "(0::size_t) \<le> n" by simp
    show "?P (unat (0::size_t)) (buf0, seed0)" using len by simp
    fix k s
    assume "unat (0::size_t) \<le> k" and k: "k < unat n" and P: "?P k s"
    obtain buf seed where s: "s = (buf, seed)" by (cases s)
    obtain v seed' where rd: "random_double lo hi seed = (v, seed')" by (cases "random_double lo hi seed")
    have "unat n < 2 ^ 64" using unsigned_less [of n] by simp
    with k have uk: "unat (of_nat k :: size_t) = k" by (simp add: unat_of_nat)
    from P s have lenb: "length buf = unat n" and tk: "take k buf = fst (lcg_stream lo hi seed0 k)"
      and sd: "seed = snd (lcg_stream lo hi seed0 k)" by simp_all
    have "?body (of_nat k) s = Inr (buf[k := v], seed')"
      using s rd uk k lenb by simp
    moreover have "?P (Suc k) (buf[k := v], seed')"
      using lenb k tk sd rd by (auto simp: take_Suc_conv_app_nth split: prod.splits)
    ultimately show "\<exists>s'. ?body (of_nat k) s = Inr s' \<and> ?P (Suc k) s'" by blast
  qed
  then obtain s' where run: "for_upto 0 n ?body (buf0, seed0) = Inr s'" and P: "?P (unat n) s'"
    by blast
  from P have "length (fst s') \<le> unat n"
    by simp
  then have "take (unat n) (fst s') = fst s'"
    by (rule take_all)
  with P have "s' = lcg_stream lo hi seed0 (unat n)"
    by (simp add: prod_eq_iff)
  with run show ?thesis by simp
qed

text \<open>
  Claim C6.  Random initialisation is deterministic: after seeding the generator with
  the same value, \<^verbatim>\<open>matrix_init_random\<close> with the same bounds on two well-formed
  matrices of the same dimensions gives identical matrices (and leaves identical
  generator states), whatever the matrices held and whatever the generator state was
  before seeding.  The element at linear offset \<open>i\<close> is the value of the \<open>(i+1)\<close>-th call of
  the linear-congruential generator.
\<close>

theorem init_random_deterministic:
  assumes "wf_matrix m1" and "wf_matrix m2" and "rows m1 = rows m2" and "cols m1 = cols m2"
  shows "matrix_init_random (Some m1) lo hi (seed_random seed g1) =
           matrix_init_random (Some m2) lo hi (seed_random seed g2)
       \<and> matrix_init_random (Some m1) lo hi (seed_random seed g1) =
           Inr (Some \<lparr>data = Some (fst (lcg_stream lo hi seed (unat (rows m1) * unat (cols m1)))),
                      rows = rows m1, cols = cols m1\<rparr>,
                snd (lcg_stream lo hi seed (unat (rows m1) * unat (cols m1))))"
proof -
  have run: "matrix_init_random (Some m) lo hi (seed_random seed g) =
           Inr (Some \<lparr>data = Some (fst (lcg_stream lo hi seed (unat (rows m) * unat (cols m)))),
                      rows = rows m, cols = cols m\<rparr>,
                snd (lcg_stream lo hi seed (unat (rows m) * unat (cols m))))"
    if wf: "wf_matrix m" for m g
  proof -
    from wf obtain buf where d: "data m = Some buf"
      and len: "length buf = unat (rows m) * unat (cols m)"
      and small: "unat (rows m) * unat (cols m) < 2 ^ 64"
      by (auto simp: wf_matrix_def split: option.splits)
    from small have n: "unat (rows m * cols m) = unat (rows m) * unat (cols m)"
      by (simp add: unat_word_ariths)
    have "m\<lparr>data := Some x\<rparr> = \<lparr>data = Some x, rows = rows m, cols = cols m\<rparr>" for x
      by (cases m) simp
    then show ?thesis
      using d init_random_loop [of buf "rows m * cols m" lo hi seed] len n
      by (simp add: matrix_init_random_def seed_random_def split: prod.splits)
  qed
  from run [OF assms(1), of g1] run [OF assms(2), of g2] assms(3,4) show ?thesis
    by simp
qed

theorem init_random_deterministic_witness:
  "wf_matrix (mk_matrix 2 2 [0, 0, 0, 0]) \<and> wf_matrix (mk_matrix 2 2 [7, 7, 7, 7])
   \<and> matrix_init_random (Some (mk_matrix 2 2 [0, 0, 0, 0])) (- 1) 1 (seed_random 42 1) =
       matrix_init_random (Some (mk_matrix 2 2 [7, 7, 7, 7])) (- 1) 1 (seed_random 42 99)"
proof -
  have wf: "wf_matrix (mk_matrix 2 2 [0, 0, 0, 0])" "wf_matrix (mk_matrix 2 2 [7, 7, 7, 7])"
    by (simp_all add: wf_matrix_def mk_matrix_def)
  have dims: "rows (mk_matrix 2 2 [0, 0, 0, 0]) = rows (mk_matrix 2 2 [7, 7, 7, 7])"
    "cols (mk_matrix 2 2 [0, 0, 0, 0]) = cols (mk_matrix 2 2 [7, 7, 7, 7])"
    by (simp_all add: mk_matrix_def)
  from init_random_deterministic [OF wf dims, of "- 1" 1 42 1 99] wf show ?thesis
    by simp
qed

section \<open>Verification\<close>

declare matrix_verify_loop.simps [simp del]

lemma matrix_verify_loop_eq:
  assumes "unat n \<le> length da" "unat n \<le> length db"
  shows "matrix_verify_loop da db tol i n =
           Inr (if \<forall>k. unat i \<le> k \<and> k < unat n \<longrightarrow> \<bar>da ! k - db ! k\<bar> \<le> tol then 1 else 0)"
  using assms
proof (induction da db tol i n rule: matrix_verify_loop.induct)
  case (1 da db tol i n)
  show ?case
  proof (cases "i < n")
    case False
    then have "\<not> unat i < unat n" by (simp add: word_less_nat_alt)
    then show ?thesis
      using False by (subst matrix_verify_loop.simps) auto
  next
    case True
    then have lt: "unat i < unat n" by (simp add: word_less_nat_alt)
    have "unat n < 2 ^ 64" using unsigned_less [of n] by simp
    with lt have suc: "unat (i + 1) = Suc (unat i)" by (simp add: unat_word_ariths)
    have inb: "unat i < length da \<and> unat i < length db"
      using lt "1.prems" by simp
    show ?thesis
    proof (cases "\<bar>da ! unat i - db ! unat i\<bar> > tol")
      case big: True
      then have "\<not> (\<forall>k. unat i \<le> k \<and> k < unat n \<longrightarrow> \<bar>da ! k - db ! k\<bar> \<le> tol)"
        using lt by (auto intro!: exI [of _ "unat i"])
      then show ?thesis
        using True inb big by (subst matrix_verify_loop.simps) (simp add: Let_def)
    next
      case small: False
      have "(\<forall>k. unat i \<le> k \<and> k < unat n \<longrightarrow> \<bar>da ! k - db ! k\<bar> \<le> tol) \<longleftrightarrow>
            (\<forall>k. Suc (unat i) \<le> k \<and> k < unat n \<longrightarrow> \<bar>da ! k - db ! k\<bar> \<le> tol)"
        using small by (metis Suc_leI le_eq_less_or_eq not_less Suc_leD)
      moreover have "matrix_verify_loop da db tol (i + 1) n =
           Inr (if \<forall>k. unat (i + 1) \<le> k \<and> k < unat n \<longrightarrow> \<bar>da ! k - db ! k\<bar> \<le> tol then 1 else 0)"
        using "1.IH" [OF True inb refl _ "1.prems"] small by simp
      ultimately show ?thesis
        using True inb small suc by (subst matrix_verify_loop.simps) (simp add: Let_def)
    qed
  qed
qed

text \<open>
  Claim C7.  \<^verbatim>\<open>matrix_verify\<close> returns 0 when a handle or a buffer is null and when the
  dimensions differ; otherwise, on well-formed matrices, it returns 1 if and only if every
  pair of corresponding elements has absolute difference at most the tolerance.  In
  particular a well-formed matrix verifies against itself with tolerance 0.
\<close>

theorem matrix_verify_spec:
  "(A = None \<or> B = None \<longrightarrow> matrix_verify A B tol = Inr 0)
   \<and> (data a = None \<or> data b = None \<longrightarrow> matrix_verify (Some a) (Some b) tol = Inr 0)
   \<and> (data a' \<noteq> None \<and> data b' \<noteq> None \<and> (rows a' \<noteq> rows b' \<or> cols a' \<noteq> cols b') \<longrightarrow>
        matrix_verify (Some a') (Some b') tol = Inr 0)
   \<and> (wf_matrix x \<and> wf_matrix y \<and> rows x = rows y \<and> cols x = cols y
        \<and> data x = Some dx \<and> data y = Some dy \<longrightarrow>
        matrix_verify (Some x) (Some y) tol =
          Inr (if \<forall>k<length dx. \<bar>dx ! k - dy ! k\<bar> \<le> tol then 1 else 0))
   \<and> (wf_matrix M \<longrightarrow> matrix_verify (Some M) (Some M) 0 = Inr 1)"
proof -
  have null: "A = None \<or> B = None \<longrightarrow> matrix_verify A B tol = Inr 0"
    by (auto simp: matrix_verify_def split: option.splits)
  have nobuf: "data a = None \<or> data b = None \<longrightarrow> matrix_verify (Some a) (Some b) tol = Inr 0"
    by (auto simp: matrix_verify_def split: option.splits)
  have dims: "data a' \<noteq> None \<and> data b' \<noteq> None \<and> (rows a' \<noteq> rows b' \<or> cols a' \<noteq> cols b') \<longrightarrow>
        matrix_verify (Some a') (Some b') tol = Inr 0"
    by (auto simp: matrix_verify_def split: option.splits)
  have main: "matrix_verify (Some x) (Some y) t =
          Inr (if \<forall>k<length dx. \<bar>dx ! k - dy ! k\<bar> \<le> t then 1 else 0)"
    if wf: "wf_matrix x" "wf_matrix y" and eq: "rows x = rows y" "cols x = cols y"
      and d: "data x = Some dx" "data y = Some dy" for x y dx dy t
  proof -
    from wf d eq have len: "length dx = unat (rows x) * unat (cols x)"
      "length dy = unat (rows x) * unat (cols x)" "unat (rows x) * unat (cols x) < 2 ^ 64"
      by (auto simp: wf_matrix_def)
    then have n: "unat (rows x * cols x) = length dx"
      by (simp add: unat_word_ariths)
    have "matrix_verify_loop dx dy t 0 (rows x * cols x) =
           Inr (if \<forall>k. unat (0::size_t) \<le> k \<and> k < unat (rows x * cols x) \<longrightarrow>
                  \<bar>dx ! k - dy ! k\<bar> \<le> t then 1 else 0)"
      using n len by (intro matrix_verify_loop_eq) simp_all
    then show ?thesis
      using d eq n by (simp add: matrix_verify_def)
  qed
  have refl: "wf_matrix M \<longrightarrow> matrix_verify (Some M) (Some M) 0 = Inr 1"
  proof
    assume wf: "wf_matrix M"
    then obtain dm where "data M = Some dm" by (auto simp: wf_matrix_def split: option.splits)
    from main [OF wf wf refl refl this this, of 0] show "matrix_verify (Some M) (Some M) 0 = Inr 1"
      by simp
  qed
  from null nobuf dims main [of x y dx dy tol] refl show ?thesis
    by blast
qed

theorem matrix_verify_spec_witness:
  "matrix_verify None (Some (mk_matrix 1 2 [1, 2])) (1 / 2) = Inr 0
   \<and> matrix_verify (Some \<lparr>data = None, rows = 1, cols = 2\<rparr>) (Some (mk_matrix 1 2 [1, 2])) (1 / 2) = Inr 0
   \<and> matrix_verify (Some (mk_matrix 1 2 [1, 2])) (Some (mk_matrix 2 1 [1, 2])) (1 / 2) = Inr 0
   \<and> wf_matrix (mk_matrix 1 2 [1, 2]) \<and> wf_matrix (mk_matrix 1 2 [1, 5 / 2])
   \<and> matrix_verify (Some (mk_matrix 1 2 [1, 2])) (Some (mk_matrix 1 2 [1, 5 / 2])) (1 / 2) = Inr 1
   \<and> matrix_verify (Some (mk_matrix 1 2 [1, 2])) (Some (mk_matrix 1 2 [1, 5 / 2])) (1 / 4) = Inr 0
   \<and> matrix_verify (Some (mk_matrix 1 2 [1, 2])) (Some (mk_matrix 1 2 [1, 2])) 0 = Inr 1"
proof -
  have wf: "wf_matrix (mk_matrix 1 2 [1, 2])" "wf_matrix (mk_matrix 1 2 [1, 5 / 2])"
    by (simp_all add: wf_matrix_def mk_matrix_def)
  from matrix_verify_spec [of None "Some (mk_matrix 1 2 [1, 2])" "1 / 2"
      "\<lparr>data = None, rows = 1, cols = 2\<rparr>" "mk_matrix 1 2 [1, 2]"
      "mk_matrix 1 2 [1, 2]" "mk_matrix 2 1 [1, 2]"
      "mk_matrix 1 2 [1, 2]" "mk_matrix 1 2 [1, 5 / 2]" "[1, 2]" "[1, 5 / 2]" "mk_matrix 1 2 [1, 2]"]
    matrix_verify_spec [of None None "1 / 4"
      "\<lparr>data = None, rows = 1, cols = 2\<rparr>" "mk_matrix 1 2 [1, 2]"
      "mk_matrix 1 2 [1, 2]" "mk_matrix 2 1 [1, 2]"
      "mk_matrix 1 2 [1, 2]" "mk_matrix 1 2 [1, 5 / 2]" "[1, 2]" "[1, 5 / 2]" "mk_matrix 1 2 [1, 2]"]
    wf
  show ?thesis
    by (simp add: mk_matrix_def All_less_Suc)
qed

section \<open>Allocation\<close>

text \<open>
  The byte count \<^verbatim>\<open>rows * cols * sizeof(double)\<close> is a \<^verbatim>\<open>size_t\<close> product.  When the
  mathematical product fits, the request is for exactly that many bytes.
\<close>

lemma byte_count_exact:
  assumes "unat r * unat c * 8 < 2 ^ 64"
  shows "unat (r * c * 8 :: size_t) = unat r * unat c * 8"
proof -
  from assms have "8 * (unat r * unat c) < 2 ^ 64" by (simp add: mult.commute)
  then have "unat r * unat c < 2 ^ 64" by (rule bytes_small)
  then have "unat (r * c) = unat r * unat c" by (simp add: unat_word_ariths)
  with assms show ?thesis by (simp add: unat_word_ariths)
qed

text \<open>
  When it does not fit, the request is for fewer bytes than \<open>rows * cols\<close> doubles need:
  a block of the requested size is too short for the dimensions stored in the handle.
\<close>

lemma matrix_create_overflow_truncates:
  assumes "2 ^ 64 \<le> unat r * unat c * 8"
    and "matrix_create env r c = Some M" and "data M = Some buf"
    and "8 * length buf = unat (r * c * 8)"
  shows "rows M = r \<and> cols M = c \<and> length buf < unat r * unat c \<and> \<not> wf_matrix M"
proof -
  have rc: "rows M = r" "cols M = c"
    using assms(2) by (auto simp: matrix_create_def split: if_splits option.splits)
  have "unat (r * c * 8) < (2 :: nat) ^ 64"
    using unsigned_less [of "r * c * 8"] by simp
  then have "unat (r * c * 8) < unat r * unat c * 8"
    using assms(1) by (rule less_le_trans)
  with assms(4) have "length buf < unat r * unat c" by linarith
  with rc assms(3) show ?thesis by (simp add: wf_matrix_def)
qed

text \<open>
  Claim C8 expects \<^verbatim>\<open>matrix_create\<close> to fail whenever \<open>rows\<close> or \<open>cols\<close> is zero, and
  never to return a truncated or zero-sized matrix as success.  The function has no
  check of its arguments: with a C library that grants a request for zero bytes, a call
  with zero rows succeeds with an empty buffer; and for \<open>rows = cols = 2^64 - 1\<close> (what
  \<^verbatim>\<open>main\<close> passes for the argument \<^verbatim>\<open>-1\<close>) the byte count wraps to 8, and the call succeeds
  with a buffer of one double for a matrix of \<open>(2^64 - 1)^2\<close> elements.
\<close>

theorem matrix_create_zero_or_truncated:
  "matrix_create granting_libc 0 5 = Some \<lparr>data = Some [], rows = 0, cols = 5\<rparr>
   \<and> matrix_create granting_libc (2 ^ 64 - 1) (2 ^ 64 - 1) =
       Some \<lparr>data = Some [0], rows = 2 ^ 64 - 1, cols = 2 ^ 64 - 1\<rparr>
   \<and> length [0 :: real] < unat (2 ^ 64 - 1 :: size_t) * unat (2 ^ 64 - 1 :: size_t)
   \<and> \<not> wf_matrix \<lparr>data = Some [0], rows = 2 ^ 64 - 1, cols = 2 ^ 64 - 1\<rparr>"
  by (simp add: matrix_create_def granting_libc_def aligned_malloc_def wf_matrix_def)

text \<open>
  Claim C8, amended.  When \<open>rows * cols * 8\<close> fits in a \<^verbatim>\<open>size_t\<close>, the request made to
  \<^verbatim>\<open>aligned_malloc\<close> is for exactly \<open>rows * cols * 8\<close> bytes, and \<^verbatim>\<open>matrix_create\<close> returns
  null exactly when the allocation of the handle fails or that request returns no
  block (zero dimensions are not tested).  On success the handle has the requested
  \<open>rows\<close> and \<open>cols\<close> and the block of the allocator, and when the block has the requested
  size the matrix is well-formed: it holds exactly \<open>rows * cols\<close> doubles.
\<close>

theorem matrix_create_result:
  assumes "unat r * unat c * 8 < 2 ^ 64"
  shows "unat (r * c * 8) = unat r * unat c * 8
   \<and> (matrix_create env r c = None \<longleftrightarrow>
        \<not> malloc_ok env \<or> aligned_malloc env (r * c * 8) 32 = None)
   \<and> (\<forall>M. matrix_create env r c = Some M \<longrightarrow>
        rows M = r \<and> cols M = c \<and> data M \<noteq> None
        \<and> data M = aligned_malloc env (r * c * 8) 32
        \<and> ((\<forall>buf. data M = Some buf \<longrightarrow> 8 * length buf = unat (r * c * 8))
            \<longrightarrow> wf_matrix M))"
proof -
  note b = byte_count_exact [OF assms]
  have "matrix_create env r c = None \<longleftrightarrow>
        \<not> malloc_ok env \<or> aligned_malloc env (r * c * 8) 32 = None"
    by (simp add: matrix_create_def split: option.splits)
  moreover have "rows M = r \<and> cols M = c \<and> data M \<noteq> None
        \<and> data M = aligned_malloc env (r * c * 8) 32
        \<and> ((\<forall>buf. data M = Some buf \<longrightarrow> 8 * length buf = unat (r * c * 8))
            \<longrightarrow> wf_matrix M)" if "matrix_create env r c = Some M" for M
    using that assms b
    by (auto simp: matrix_create_def wf_matrix_def split: if_splits option.splits)
  ultimately show ?thesis using b by blast
qed

theorem matrix_create_result_witness:
  "unat (2 :: size_t) * unat (3 :: size_t) * 8 < 2 ^ 64
   \<and> unat (0 :: size_t) * unat (5 :: size_t) * 8 < 2 ^ 64
   \<and> malloc_ok granting_libc
   \<and> aligned_malloc granting_libc (2 * 3 * 8) 32 = Some (replicate 6 0)
   \<and> matrix_create granting_libc 2 3 = Some (mk_matrix 2 3 (replicate 6 0))
   \<and> wf_matrix (mk_matrix 2 3 (replicate 6 0))
   \<and> matrix_create (granting_libc\<lparr>malloc_ok := False\<rparr>) 2 3 = None
   \<and> matrix_create granting_libc 0 5 \<noteq> None"
proof -
  have g: "unat (2 :: size_t) * unat (3 :: size_t) * 8 < 2 ^ 64"
    "unat (0 :: size_t) * unat (5 :: size_t) * 8 < 2 ^ 64"
    by simp_all
  have m: "matrix_create granting_libc 2 3 = Some (mk_matrix 2 3 (replicate 6 0))"
    by (simp add: matrix_create_def granting_libc_def aligned_malloc_def mk_matrix_def)
  have a: "aligned_malloc granting_libc (2 * 3 * 8) 32 = Some (replicate 6 0)"
    "aligned_malloc granting_libc (0 * 5 * 8) 32 = Some []"
    by (simp_all add: granting_libc_def aligned_malloc_def)
  from matrix_create_result [OF g(1), of granting_libc]
    matrix_create_result [OF g(1), of "granting_libc\<lparr>malloc_ok := False\<rparr>"]
    matrix_create_result [OF g(2), of granting_libc] m a g
  show ?thesis
    by (simp add: mk_matrix_def granting_libc_def)
qed

end
